theory Spec2Isabelle
  imports Complex_Main "HOL-Library.AList" "HOL-Library.Multiset"
begin

section \<open>JavaScript built-ins used by the game\<close>

text \<open>
  A JavaScript string is a sequence of UTF-16 code units. The game is played with the
  Swedish alphabet, so a string is modelled as a \<open>char list\<close> in which every \<open>char\<close> is
  one code unit of the Latin-1 range U+0000 to U+00FF (\<open>CHR 0xC5\<close> is the letter A with
  ring, \<open>CHR 0xC4\<close> and \<open>CHR 0xD6\<close> the letters A and O with diaeresis), and \<open>length\<close>
  is the \<open>.length\<close> of the source. Two Latin-1 letters, U+00B5 and U+00FF, have capital
  forms outside Latin-1; the model leaves them unchanged.
\<close>

definition upperChar :: "char \<Rightarrow> string" where
  \<comment> \<open>the upper-case mapping of one code unit; U+00DF (sharp s) becomes two letters\<close>
  "upperChar c =
     (let n = (of_char c :: nat) in
      if 97 \<le> n \<and> n \<le> 122 then [char_of (n - 32)]
      else if n = 223 then ''SS''
      else if 224 \<le> n \<and> n \<le> 254 \<and> n \<noteq> 247 then [char_of (n - 32)]
      else [c])"

definition toUpperCase :: "string \<Rightarrow> string" where
  "toUpperCase s = concat (map upperChar s)"

definition lowerChar :: "char \<Rightarrow> char" where
  "lowerChar c =
     (let n = (of_char c :: nat) in
      if 65 \<le> n \<and> n \<le> 90 then char_of (n + 32)
      else if 192 \<le> n \<and> n \<le> 222 \<and> n \<noteq> 215 then char_of (n + 32)
      else c)"

definition toLowerCase :: "string \<Rightarrow> string" where
  "toLowerCase s = map lowerChar s"

definition isWhiteSpace :: "char \<Rightarrow> bool" where
  \<comment> \<open>WhiteSpace and LineTerminator of ECMAScript, within Latin-1\<close>
  "isWhiteSpace c =
     (let n = (of_char c :: nat) in (9 \<le> n \<and> n \<le> 13) \<or> n = 32 \<or> n = 160)"

definition trim :: "string \<Rightarrow> string" where
  "trim s = rev (dropWhile isWhiteSpace (rev (dropWhile isWhiteSpace s)))"

definition Math_round :: "real \<Rightarrow> int" where
  \<comment> \<open>\<open>Math.round\<close>: the nearest integer, a tie going up\<close>
  "Math_round x = \<lfloor>x + 1 / 2\<rfloor>"

text \<open>
  \<open>Array.prototype.indexOf\<close> (\<open>None\<close> is the source's \<open>-1\<close>) and
  \<open>splice(index, 1)\<close>, which removes the element at \<open>index\<close>.
\<close>

fun indexOf :: "'a list \<Rightarrow> 'a \<Rightarrow> nat option" where
  "indexOf [] x = None"
| "indexOf (y # ys) x = (if y = x then Some 0 else map_option Suc (indexOf ys x))"

definition splice1 :: "'a list \<Rightarrow> nat \<Rightarrow> 'a list" where
  "splice1 xs index = take index xs @ drop (Suc index) xs"



text \<open>
  A JavaScript \<open>Map\<close> iterates in insertion order: it is an association list with
  distinct keys. \<open>set\<close> on a key already present keeps the key's position, on a new key
  appends; \<open>delete\<close> removes the entry. A \<open>Set\<close> is a list without repetition.
\<close>

definition Map_get :: "('k \<times> 'v) list \<Rightarrow> 'k \<Rightarrow> 'v option" where
  "Map_get m k = map_of m k"

definition Map_has :: "('k \<times> 'v) list \<Rightarrow> 'k \<Rightarrow> bool" where
  "Map_has m k = (map_of m k \<noteq> None)"

definition Map_set :: "('k \<times> 'v) list \<Rightarrow> 'k \<Rightarrow> 'v \<Rightarrow> ('k \<times> 'v) list" where
  "Map_set m k v = AList.update k v m"

definition Map_delete :: "('k \<times> 'v) list \<Rightarrow> 'k \<Rightarrow> ('k \<times> 'v) list" where
  "Map_delete m k = AList.delete k m"

definition Set_has :: "'a list \<Rightarrow> 'a \<Rightarrow> bool" where
  "Set_has s x = (x \<in> set s)"

definition Set_add :: "'a list \<Rightarrow> 'a \<Rightarrow> 'a list" where
  "Set_add s x = (if x \<in> set s then s else s @ [x])"

section \<open>Game logic (gameLogic.js)\<close>

text \<open>
  The word list is loaded once, before the server listens, and is read-only afterwards:
  every function that reads it takes it as the argument \<open>wordList\<close>. The letters of a
  game are an array of one-letter strings, modelled as a list of characters.
\<close>

record cfw_store =
  availableLetters :: "char list"
  letterPool :: "char list"

fun canFormLoop :: "string \<Rightarrow> cfw_store \<Rightarrow> bool \<times> cfw_store" where
  "canFormLoop [] s = (True, s)"
| "canFormLoop (c # cs) s =
     (case indexOf (letterPool s) c of
        None \<Rightarrow> (False, s)
      | Some index \<Rightarrow> canFormLoop cs (s\<lparr>letterPool := splice1 (letterPool s) index\<rparr>))"

definition canFormWord_run :: "string \<Rightarrow> char list \<Rightarrow> bool \<times> cfw_store" where
  \<comment> \<open>the call with its two arrays: the caller's \<open>availableLetters\<close> and the copy \<open>letterPool\<close>\<close>
  "canFormWord_run word bag =
     (let s = \<lparr>availableLetters = bag, letterPool = bag\<rparr>;
          upperWord = toUpperCase word
      in canFormLoop upperWord s)"

definition canFormWord :: "string \<Rightarrow> char list \<Rightarrow> bool" where
  "canFormWord word bag = fst (canFormWord_run word bag)"

definition isValidSwedishWord :: "string list \<Rightarrow> string \<Rightarrow> bool" where
  "isValidSwedishWord wordList word = Set_has wordList (toUpperCase word)"

datatype validation_error =
    EmptyWord  \<comment> \<open>'Tomt ord'\<close>
  | TooShort int  \<comment> \<open>'Ordet maste vara minst N bokstaver'\<close>
  | InvalidLetters  \<comment> \<open>'Ogiltiga bokstaver'\<close>
  | NotSwedishWord  \<comment> \<open>'Inte ett giltigt svenskt ord'\<close>

definition validateWord :: "string list \<Rightarrow> string \<Rightarrow> char list \<Rightarrow> int \<Rightarrow> validation_error option" where
  \<comment> \<open>\<open>None\<close> is \<open>{ valid: true }\<close>\<close>
  "validateWord wordList word letters minLength =
     (let upperWord = trim (toUpperCase word) in
      if upperWord = [] then Some EmptyWord
      else if int (length upperWord) < minLength then Some (TooShort minLength)
      else if \<not> canFormWord upperWord letters then Some InvalidLetters
      else if \<not> isValidSwedishWord wordList upperWord then Some NotSwedishWord
      else None)"

definition calculateFreeForAllScore :: "string \<Rightarrow> real \<Rightarrow> int" where
  "calculateFreeForAllScore word secondsElapsed =
     (let wordLength = length word;
          timeBonus = max 0 (60 - secondsElapsed);
          score = real wordLength * timeBonus;
          score = (if wordLength > 6 then score + 5 else score)
      in Math_round score)"

definition calculateExclusiveScore :: "string \<Rightarrow> int" where
  "calculateExclusiveScore word = int (length word)"



section \<open>The server (app.js)\<close>

text \<open>
  The mode of a game is the string \<open>'exclusive'\<close> or \<open>'freeforall'\<close>; \<open>submitWord\<close>
  takes every mode other than \<open>'exclusive'\<close> as free-for-all. The functions of this
  section are the bodies of the socket handlers once the game of the socket is found,
  with the socket id as an argument.
\<close>

datatype game_mode = FreeForAll | Exclusive

datatype game_status = Waiting | Playing | Ended

record player =
  player_id :: string
  name :: string
  score :: int
  connected :: bool

record claim =
  playerId :: string
  playerName :: string
  timestamp :: int
  claim_score :: int
  claim_word :: "string option"  \<comment> \<open>the field \<open>word\<close>, which only a free-for-all claim has\<close>

record game =
  game_id :: string
  mode :: game_mode
  letters :: "char list"
  letterCount :: int
  minWordLength :: int
  duration :: int
  hostId :: "string option"
  players :: "(string \<times> player) list"  \<comment> \<open>keyed by socket id\<close>
  claims :: "(string \<times> claim) list"
  playerClaims :: "(string \<times> string list) list"
  status :: game_status
  startTime :: "int option"
  timerInterval :: bool  \<comment> \<open>whether an interval is registered\<close>

record options =
  opt_mode :: "game_mode option"
  opt_letterCount :: "int option"
  opt_minWordLength :: "int option"
  opt_gameDuration :: "int option"

definition MAX_PLAYERS_PER_ROOM :: nat where
  "MAX_PLAYERS_PER_ROOM = 20"

definition DEFAULT_GAME_DURATION :: int where
  "DEFAULT_GAME_DURATION = 60"

definition orDefault :: "int option \<Rightarrow> int \<Rightarrow> int" where
  \<comment> \<open>\<open>x || d\<close> on a number: undefined and 0 are falsy\<close>
  "orDefault x d = (case x of None \<Rightarrow> d | Some n \<Rightarrow> if n = 0 then d else n)"

definition createGame :: "string \<Rightarrow> char list \<Rightarrow> options \<Rightarrow> game" where
  \<comment> \<open>\<open>gid\<close> is what \<open>generateGameId\<close> returned and \<open>ls\<close> what \<open>generateLetters\<close> returned\<close>
  "createGame gid ls opts =
     \<lparr>game_id = gid,
      mode = (case opt_mode opts of None \<Rightarrow> FreeForAll | Some m \<Rightarrow> m),
      letters = ls,
      letterCount = orDefault (opt_letterCount opts) 15,
      minWordLength = orDefault (opt_minWordLength opts) 3,
      duration = orDefault (opt_gameDuration opts) DEFAULT_GAME_DURATION,
      hostId = None,
      players = [],
      claims = [],
      playerClaims = [],
      status = Waiting,
      startTime = None,
      timerInterval = False\<rparr>"

definition elapsedSeconds :: "game \<Rightarrow> int \<Rightarrow> int" where
  \<comment> \<open>\<open>Math.floor((Date.now() - game.startTime) / 1000)\<close>; a null start time counts as 0\<close>
  "elapsedSeconds g now = (now - (case startTime g of None \<Rightarrow> 0 | Some t \<Rightarrow> t)) div 1000"

definition startGameTimer :: "game \<Rightarrow> int \<Rightarrow> game" where
  "startGameTimer g now = g\<lparr>startTime := Some now, status := Playing, timerInterval := True\<rparr>"

definition endGame :: "game \<Rightarrow> game" where
  "endGame g = g\<lparr>timerInterval := False, status := Ended\<rparr>"

definition timerTick :: "game \<Rightarrow> int \<Rightarrow> game" where
  \<comment> \<open>the callback of \<open>setInterval\<close> in \<open>startGameTimer\<close>\<close>
  "timerTick g now =
     (let elapsed = elapsedSeconds g now;
          remaining = max 0 (duration g - elapsed)
      in if remaining \<le> 0 then endGame g else g)"

datatype submit_error =
    NotActive  \<comment> \<open>'Spelet ar inte aktivt'\<close>
  | Invalid validation_error
  | AlreadyClaimed  \<comment> \<open>'Ordet ar redan taget!'\<close>
  | AlreadyUsed  \<comment> \<open>'Du har redan anvant detta ord!'\<close>

record submit_ok =
  ok_word :: string
  ok_score :: int
  totalScore :: int

definition claimKey :: "string \<Rightarrow> string \<Rightarrow> string" where
  "claimKey upperWord pid = upperWord @ ''-'' @ pid"

definition submitWord ::
  "string list \<Rightarrow> game \<Rightarrow> string \<Rightarrow> string \<Rightarrow> int \<Rightarrow> (submit_error + submit_ok) \<times> game" where
  \<comment> \<open>\<open>now\<close> is what \<open>Date.now()\<close> returns; the game returned is the game after the call\<close>
  "submitWord wordList g pid word now =
     (case Map_get (players g) pid of
        None \<Rightarrow> (Inl NotActive, g)
      | Some p \<Rightarrow>
          if status g \<noteq> Playing then (Inl NotActive, g)
          else
            let upperWord = trim (toUpperCase word);
                elapsed = elapsedSeconds g now
            in (case validateWord wordList upperWord (letters g) (minWordLength g) of
                 Some e \<Rightarrow> (Inl (Invalid e), g)
               | None \<Rightarrow>
                   if mode g = Exclusive then
                     if Map_has (claims g) upperWord then (Inl AlreadyClaimed, g)
                     else
                       let sc = calculateExclusiveScore upperWord;
                           p' = p\<lparr>score := score p + sc\<rparr>
                       in (Inr \<lparr>ok_word = upperWord, ok_score = sc, totalScore = score p'\<rparr>,
                           g\<lparr>claims := Map_set (claims g) upperWord
                                (\<lparr>playerId = pid, playerName = name p, timestamp = elapsed,
                                  claim_score = sc, claim_word = None\<rparr>),
                             players := Map_set (players g) pid p'\<rparr>)
                   else
                     let g1 = (if \<not> Map_has (playerClaims g) pid
                               then g\<lparr>playerClaims := Map_set (playerClaims g) pid []\<rparr> else g);
                         mine = (case Map_get (playerClaims g1) pid of None \<Rightarrow> [] | Some s \<Rightarrow> s)
                     in if Set_has mine upperWord then (Inl AlreadyUsed, g1)
                        else
                          let sc = calculateFreeForAllScore upperWord (real_of_int elapsed);
                              p' = p\<lparr>score := score p + sc\<rparr>
                          in (Inr \<lparr>ok_word = upperWord, ok_score = sc, totalScore = score p'\<rparr>,
                              g1\<lparr>playerClaims := Map_set (playerClaims g1) pid (Set_add mine upperWord),
                                 claims := Map_set (claims g1) (claimKey upperWord pid)
                                   (\<lparr>playerId = pid, playerName = name p, timestamp = elapsed,
                                     claim_score = sc, claim_word = Some upperWord\<rparr>),
                                 players := Map_set (players g1) pid p'\<rparr>)))"

datatype join_error =
    GameNotFound  \<comment> \<open>'Spelet hittades inte'\<close>
  | GameEnded  \<comment> \<open>'Spelet ar avslutat'\<close>
  | GameFull  \<comment> \<open>'Spelet ar fullt'\<close>
  | NameTaken  \<comment> \<open>'Namnet ar redan taget'\<close>

definition nameTaken :: "(string \<times> player) list \<Rightarrow> string \<Rightarrow> bool" where
  "nameTaken ps nm =
     list_ex (\<lambda>(_, p). toLowerCase (name p) = toLowerCase nm \<and> connected p) ps"

definition joinGame :: "game \<Rightarrow> string \<Rightarrow> string \<Rightarrow> join_error + (game \<times> bool)" where
  \<comment> \<open>the join-game handler once the game is found; the boolean is \<open>isHost\<close>\<close>
  "joinGame g sid nm =
     (if status g = Ended then Inl GameEnded
      else if length (players g) \<ge> MAX_PLAYERS_PER_ROOM then Inl GameFull
      else if Map_has (players g) sid then Inr (g, Some sid = hostId g)
      else if nameTaken (players g) nm then Inl NameTaken
      else
        let ps = (case find (\<lambda>(_, p). name p = nm \<and> \<not> connected p) (players g) of
                    Some (existingId, p) \<Rightarrow>
                      Map_set (Map_delete (players g) existingId) sid (p\<lparr>connected := True\<rparr>)
                  | None \<Rightarrow>
                      Map_set (players g) sid
                        \<lparr>player_id = sid, name = nm, score = 0, connected = True\<rparr>);
            h = (if hostId g = None then Some sid else hostId g)
        in Inr (g\<lparr>players := ps, hostId := h\<rparr>, Some sid = h))"


datatype start_error =
    NotHost  \<comment> \<open>'Endast varden kan starta spelet'\<close>
  | AlreadyStarted  \<comment> \<open>'Spelet har redan startat'\<close>
  | NoPlayers  \<comment> \<open>'Minst en spelare behovs'\<close>

definition startGame :: "game \<Rightarrow> string \<Rightarrow> int \<Rightarrow> start_error + game" where
  "startGame g sid now =
     (if Some sid \<noteq> hostId g then Inl NotHost
      else if status g \<noteq> Waiting then Inl AlreadyStarted
      else if length (players g) < 1 then Inl NoPlayers
      else Inr (startGameTimer g now))"

definition disconnect :: "game \<Rightarrow> string \<Rightarrow> game" where
  "disconnect g sid =
     (case Map_get (players g) sid of
        None \<Rightarrow> g
      | Some p \<Rightarrow>
          let g1 = g\<lparr>players := Map_set (players g) sid (p\<lparr>connected := False\<rparr>)\<rparr>
          in if Some sid = hostId g1
             then (case find (\<lambda>(_, q). connected q) (players g1) of
                     Some (i, _) \<Rightarrow> g1\<lparr>hostId := Some i\<rparr>
                   | None \<Rightarrow> g1)
             else g1)"

text \<open>
  The events that reach one session, and the session after a sequence of them. A request
  that is rejected leaves the session as the handler left it.
\<close>

datatype event =
    JoinGame string string  \<comment> \<open>socket id, display name\<close>
  | StartGame string int  \<comment> \<open>socket id, \<open>Date.now()\<close>\<close>
  | SubmitWord string string int  \<comment> \<open>socket id, word, \<open>Date.now()\<close>\<close>
  | Disconnect string
  | TimerTick int

fun step :: "string list \<Rightarrow> game \<Rightarrow> event \<Rightarrow> game" where
  "step wordList g (JoinGame sid nm) =
     (case joinGame g sid nm of Inl _ \<Rightarrow> g | Inr (g', _) \<Rightarrow> g')"
| "step wordList g (StartGame sid now) =
     (case startGame g sid now of Inl _ \<Rightarrow> g | Inr g' \<Rightarrow> g')"
| "step wordList g (SubmitWord sid word now) = snd (submitWord wordList g sid word now)"
| "step wordList g (Disconnect sid) = disconnect g sid"
| "step wordList g (TimerTick now) = (if timerInterval g then timerTick g now else g)"

definition run :: "string list \<Rightarrow> game \<Rightarrow> event list \<Rightarrow> game" where
  "run wordList g evs = foldl (step wordList) g evs"

definition claimedScore :: "game \<Rightarrow> string \<Rightarrow> int" where
  \<comment> \<open>the sum of the scores of the ledger entries of one player id\<close>
  "claimedScore g pid = sum_list (map (\<lambda>(_, c). claim_score c) (filter (\<lambda>(_, c). playerId c = pid) (claims g)))"

definition fallbackWordList :: "string list" where
  \<comment> \<open>the built-in list \<open>loadWordList\<close> uses when the download fails\<close>
  "fallbackWordList =
     [''OCH'', ''ATT'', ''DET'', ''SOM'', ''HAR'', ''MED'', ''VAR'', ''ETT'',
      [CHR ''F'', CHR 0xD6, CHR ''R''], [CHR ''P'', CHR 0xC5]]"

definition defaultOptions :: options where
  "defaultOptions =
     \<lparr>opt_mode = None, opt_letterCount = None, opt_minWordLength = None,
      opt_gameDuration = None\<rparr>"

definition exampleGame :: "game_mode \<Rightarrow> game" where
  \<comment> \<open>a fresh game with the letters A, T, T, O, C, H\<close>
  "exampleGame m = createGame ''ABC234'' ''ATTOCH'' (defaultOptions\<lparr>opt_mode := Some m\<rparr>)"


definition entry_ok :: "string list \<Rightarrow> game \<Rightarrow> string \<times> claim \<Rightarrow> bool" where
  \<comment> \<open>what \<open>submitWord\<close> establishes for the entry it inserts\<close>
  "entry_ok wordList g kc =
     (case kc of (k, c) \<Rightarrow>
        if mode g = Exclusive
        then claim_word c = None \<and> trim (toUpperCase k) = k
             \<and> validateWord wordList k (letters g) (minWordLength g) = None
        else (case claim_word c of
                None \<Rightarrow> False
              | Some w \<Rightarrow>
                  k = claimKey w (playerId c) \<and> trim (toUpperCase w) = w
                  \<and> validateWord wordList w (letters g) (minWordLength g) = None
                  \<and> (case Map_get (playerClaims g) (playerId c) of
                        None \<Rightarrow> False
                      | Some s \<Rightarrow> Set_has s w)))"

definition ledger_ok :: "string list \<Rightarrow> game \<Rightarrow> bool" where
  "ledger_ok wordList g =
     (distinct (map fst (claims g)) \<and> list_all (entry_ok wordList g) (claims g))"

definition exampleExclusiveRound :: game where
  \<comment> \<open>two players, the round started, and the first has claimed ATT\<close>
  "exampleExclusiveRound =
     run fallbackWordList (exampleGame Exclusive)
       [JoinGame ''s1'' ''Alva'', JoinGame ''s2'' ''Bo'', StartGame ''s1'' 0,
        SubmitWord ''s1'' ''att'' 10000]"

definition exampleFreeForAllRound :: game where
  "exampleFreeForAllRound =
     run fallbackWordList (exampleGame FreeForAll)
       [JoinGame ''s1'' ''Alva'', JoinGame ''s2'' ''Bo'', StartGame ''s1'' 0,
        SubmitWord ''s1'' ''att'' 10000]"


definition exampleReconnect :: game where
  \<comment> \<open>Alva claims ATT after 10 seconds, disconnects, and joins again on a new socket\<close>
  "exampleReconnect =
     run fallbackWordList (exampleGame FreeForAll)
       [JoinGame ''s1'' ''Alva'', StartGame ''s1'' 0, SubmitWord ''s1'' ''att'' 10000,
        Disconnect ''s1'', JoinGame ''s2'' ''Alva'']"

definition exampleHostLeft :: game where
  \<comment> \<open>the only player, the host, disconnects, and a second player joins\<close>
  "exampleHostLeft =
     run fallbackWordList (exampleGame FreeForAll)
       [JoinGame ''s1'' ''P1'', Disconnect ''s1'', JoinGame ''s2'' ''P2'']"

definition nameScore :: "game \<Rightarrow> string \<Rightarrow> int" where
  \<comment> \<open>the sum of the scores of the ledger entries that bear one display name\<close>
  "nameScore g nm =
     sum_list (map (\<lambda>(_, c). claim_score c) (filter (\<lambda>(_, c). playerName c = nm) (claims g)))"

definition roster_ok :: "game \<Rightarrow> bool" where
  \<comment> \<open>socket ids and names are unique in the player table, every ledger entry bears the
     name of a player of the table, and every player has the points of those entries\<close>
  "roster_ok g =
     (distinct (map fst (players g))
      \<and> distinct (map (\<lambda>(_, p). name p) (players g))
      \<and> list_all (\<lambda>(_, c). playerName c \<in> set (map (\<lambda>(_, p). name p) (players g))) (claims g)
      \<and> list_all (\<lambda>(_, p). score p = nameScore g (name p)) (players g))"

section \<open>Properties\<close>

subsection \<open>Scoring\<close>





subsection \<open>Forming a word from the letters\<close>

lemma indexOf_None: "indexOf xs x = None \<longleftrightarrow> x \<notin> set xs"
  by (induction xs) auto

lemma indexOf_splice1: "indexOf xs x = Some i \<Longrightarrow> splice1 xs i = remove1 x xs"
proof (induction xs arbitrary: i)
  case Nil
  then show ?case by simp
next
  case (Cons y ys)
  show ?case
  proof (cases "y = x")
    case True
    with Cons.prems show ?thesis by (simp add: splice1_def)
  next
    case False
    with Cons.prems obtain j where j: "indexOf ys x = Some j" "i = Suc j" by auto
    from Cons.IH[OF j(1)] False j(2) show ?thesis by (simp add: splice1_def)
  qed
qed

lemma canFormLoop_mset: "fst (canFormLoop cs s) \<longleftrightarrow> mset cs \<subseteq># mset (letterPool s)"
proof (induction cs arbitrary: s)
  case Nil
  then show ?case by simp
next
  case (Cons c cs)
  show ?case
  proof (cases "indexOf (letterPool s) c")
    case None
    then have "c \<notin> set (letterPool s)" by (simp add: indexOf_None)
    then have "\<not> add_mset c (mset cs) \<subseteq># mset (letterPool s)"
      by (metis insert_subset_eq_iff set_mset_mset)
    with None show ?thesis by simp
  next
    case (Some i)
    then have in_pool: "c \<in> set (letterPool s)" by (metis indexOf_None option.distinct(1))
    from Some have "splice1 (letterPool s) i = remove1 c (letterPool s)" by (rule indexOf_splice1)
    with Some Cons.IH[of "s\<lparr>letterPool := splice1 (letterPool s) i\<rparr>"] in_pool
    show ?thesis by (simp add: insert_subset_eq_iff)
  qed
qed

lemma canFormLoop_store: "availableLetters (snd (canFormLoop cs s)) = availableLetters s"
  by (induction cs arbitrary: s) (auto split: option.splits)

lemma canFormWord_mset: "canFormWord w bag \<longleftrightarrow> mset (toUpperCase w) \<subseteq># mset bag"
  by (simp add: canFormWord_def canFormWord_run_def canFormLoop_mset)

lemma mset_le_count_list:
  "mset xs \<subseteq># mset ys \<longleftrightarrow> (\<forall>c\<in>set xs. count_list xs c \<le> count_list ys c)"
proof -
  have "mset xs \<subseteq># mset ys \<longleftrightarrow> (\<forall>c. count_list xs c \<le> count_list ys c)"
    by (simp add: subseteq_mset_def count_mset)
  also have "\<dots> \<longleftrightarrow> (\<forall>c\<in>set xs. count_list xs c \<le> count_list ys c)"
    by (metis count_list_0_iff le0)
  finally show ?thesis .
qed

lemma mset_toUpperCase: "mset (toUpperCase w) = (\<Sum>c\<in>#mset w. mset (upperChar c))"
  by (induction w) (simp_all add: toUpperCase_def)

text \<open>
  C6, as stated, fails on a word with a lower-case letter: \<open>canFormWord\<close> puts the word
  in upper case before it counts, so the letters A, A, B form the word \<open>aa\<close> although
  the character \<open>a\<close> occurs twice in the word and never among the letters.
\<close>

theorem canFormWord_lower_case_counterexample:
  "canFormWord ''aa'' ''AAB'' \<and> CHR ''a'' \<in> set ''aa''
   \<and> \<not> count_list ''aa'' CHR ''a'' \<le> count_list ''AAB'' CHR ''a''"
  by code_simp

text \<open>
  C6, amended. \<open>canFormWord\<close> returns true for a word and the letters if and only if
  every character of the word put in upper case occurs in it at most as often as among
  the letters. The result depends neither on the order of the letters nor on the order
  of the characters of the word: A, A, B form
  \<open>AA\<close> and do not form \<open>AAA\<close>. The call removes letters from its own copy only: the
  caller's array of letters is the same after the call.
\<close>

theorem canFormWord_multiset:
  "(canFormWord w bag \<longleftrightarrow>
      (\<forall>c\<in>set (toUpperCase w). count_list (toUpperCase w) c \<le> count_list bag c))
   \<and> (mset bag' = mset bag \<longrightarrow> canFormWord w bag' = canFormWord w bag)
   \<and> (mset w' = mset w \<longrightarrow> canFormWord w' bag = canFormWord w bag)
   \<and> canFormWord ''AA'' ''AAB'' \<and> \<not> canFormWord ''AAA'' ''AAB''
   \<and> availableLetters (snd (canFormWord_run w bag)) = bag"
proof -
  have "canFormWord ''AA'' ''AAB''" "\<not> canFormWord ''AAA'' ''AAB''"
    by code_simp+
  moreover have "availableLetters (snd (canFormWord_run w bag)) = bag"
    by (simp add: canFormWord_run_def canFormLoop_store)
  moreover have "canFormWord w' bag = canFormWord w bag" if "mset w' = mset w"
    using that by (simp add: canFormWord_mset mset_toUpperCase)
  ultimately show ?thesis
    by (simp add: canFormWord_mset mset_le_count_list)
qed

theorem canFormWord_multiset_witness:
  "mset ''BAA'' = mset ''AAB''
   \<and> canFormWord ''aa'' ''BAA'' \<and> canFormWord ''aa'' ''AAB''
   \<and> count_list (toUpperCase ''aa'') CHR ''A'' \<le> count_list ''AAB'' CHR ''A''
   \<and> availableLetters (snd (canFormWord_run ''aa'' ''AAB'')) = ''AAB''"
proof -
  have m: "mset ''BAA'' = mset ''AAB''" by simp
  have u: "CHR ''A'' \<in> set (toUpperCase ''aa'')" by code_simp
  have f: "canFormWord ''aa'' ''AAB''" by code_simp
  from canFormWord_multiset[of "''aa''" "''AAB''" "''BAA''"] m u f show ?thesis by blast
qed

subsection \<open>Normalising a word\<close>

lemma upperChar_fixed: "d \<in> set (upperChar c) \<Longrightarrow> upperChar d = [d]"
  by (auto simp: upperChar_def Let_def split: if_splits)

lemma toUpperCase_fixed: "\<forall>d\<in>set s. upperChar d = [d] \<Longrightarrow> toUpperCase s = s"
  by (induction s) (auto simp: toUpperCase_def)

lemma set_toUpperCase_fixed: "d \<in> set (toUpperCase s) \<Longrightarrow> upperChar d = [d]"
  by (auto simp: toUpperCase_def dest: upperChar_fixed)

lemma set_trim: "set (trim s) \<subseteq> set s"
  unfolding trim_def by (metis set_dropWhileD set_rev subsetI)

lemma toUpperCase_trim_toUpperCase: "toUpperCase (trim (toUpperCase s)) = trim (toUpperCase s)"
  by (rule toUpperCase_fixed) (meson set_toUpperCase_fixed set_trim subsetD)

lemma dropWhile_rev_keeps_head:
  assumes "a = [] \<or> \<not> P (hd a)"
  shows "dropWhile P (rev (dropWhile P (rev a))) = rev (dropWhile P (rev a))"
  by (metis assms dropWhile_eq_self_iff dropWhile_last hd_rev last_in_set
    last_rev rev_is_Nil_conv)

lemma trim_trim: "trim (trim s) = trim s"
proof -
  let ?a = "dropWhile isWhiteSpace s"
  have "?a = [] \<or> \<not> isWhiteSpace (hd ?a)" by (metis hd_dropWhile)
  then have "dropWhile isWhiteSpace (rev (dropWhile isWhiteSpace (rev ?a))) =
      rev (dropWhile isWhiteSpace (rev ?a))"
    by (rule dropWhile_rev_keeps_head)
  then show ?thesis by (simp add: trim_def)
qed

lemma normalize_idem: "trim (toUpperCase (trim (toUpperCase w))) = trim (toUpperCase w)"
  by (simp add: toUpperCase_trim_toUpperCase trim_trim)

lemma validateWord_normal:
  "validateWord wl (trim (toUpperCase w)) ls m =
     (let u = trim (toUpperCase w) in
      if u = [] then Some EmptyWord
      else if int (length u) < m then Some (TooShort m)
      else if \<not> canFormWord u ls then Some InvalidLetters
      else if \<not> isValidSwedishWord wl u then Some NotSwedishWord
      else None)"
  unfolding validateWord_def normalize_idem ..

subsection \<open>The order of the checks\<close>

text \<open>
  C8. \<open>submitWord\<close> checks in this order and stops at the first failure: the submitter
  is in the player table and the status is \<open>Playing\<close> (otherwise the round is not
  active, so a word submitted before the start or after the end is rejected with that
  error); then the word, trimmed and in upper case, is not empty, is at least as long as
  the minimum of the session, can be formed from the letters and is in the word list,
  each failure giving its own reason. A word that passes all of them is neither rejected
  as inactive nor as invalid. Starting a session whose status is not \<open>Waiting\<close> is
  always rejected, and with the already-started error when the host asks.
\<close>

theorem submitWord_checks_in_order:
  "(Map_get (players g) pid = None \<or> status g \<noteq> Playing \<longrightarrow>
      submitWord wl g pid word now = (Inl NotActive, g))
   \<and> (Map_get (players g) pid \<noteq> None \<and> status g = Playing \<longrightarrow>
        (trim (toUpperCase word) = [] \<longrightarrow>
           submitWord wl g pid word now = (Inl (Invalid EmptyWord), g))
      \<and> (trim (toUpperCase word) \<noteq> []
           \<and> int (length (trim (toUpperCase word))) < minWordLength g \<longrightarrow>
           submitWord wl g pid word now = (Inl (Invalid (TooShort (minWordLength g))), g))
      \<and> (trim (toUpperCase word) \<noteq> []
           \<and> \<not> int (length (trim (toUpperCase word))) < minWordLength g
           \<and> \<not> canFormWord (trim (toUpperCase word)) (letters g) \<longrightarrow>
           submitWord wl g pid word now = (Inl (Invalid InvalidLetters), g))
      \<and> (trim (toUpperCase word) \<noteq> []
           \<and> \<not> int (length (trim (toUpperCase word))) < minWordLength g
           \<and> canFormWord (trim (toUpperCase word)) (letters g)
           \<and> \<not> isValidSwedishWord wl (trim (toUpperCase word)) \<longrightarrow>
           submitWord wl g pid word now = (Inl (Invalid NotSwedishWord), g))
      \<and> (trim (toUpperCase word) \<noteq> []
           \<and> \<not> int (length (trim (toUpperCase word))) < minWordLength g
           \<and> canFormWord (trim (toUpperCase word)) (letters g)
           \<and> isValidSwedishWord wl (trim (toUpperCase word)) \<longrightarrow>
           fst (submitWord wl g pid word now) \<noteq> Inl NotActive
           \<and> (\<forall>e. fst (submitWord wl g pid word now) \<noteq> Inl (Invalid e))))
   \<and> (status g \<noteq> Waiting \<longrightarrow>
        (\<exists>e. startGame g sid now' = Inl e)
        \<and> (Some sid = hostId g \<longrightarrow> startGame g sid now' = Inl AlreadyStarted))"
proof -
  have inactive: "submitWord wl g pid word now = (Inl NotActive, g)"
    if "Map_get (players g) pid = None \<or> status g \<noteq> Playing"
    using that by (auto simp: submitWord_def split: option.splits)
  have active: "submitWord wl g pid word now = (Inl (Invalid e), g)"
    if "Map_get (players g) pid \<noteq> None" "status g = Playing"
       "validateWord wl (trim (toUpperCase word)) (letters g) (minWordLength g) = Some e" for e
    using that by (auto simp: submitWord_def Let_def split: option.splits)
  have passed: "fst (submitWord wl g pid word now) \<noteq> Inl NotActive
      \<and> (\<forall>e. fst (submitWord wl g pid word now) \<noteq> Inl (Invalid e))"
    if "Map_get (players g) pid \<noteq> None" "status g = Playing"
       "validateWord wl (trim (toUpperCase word)) (letters g) (minWordLength g) = None"
    using that by (auto simp: submitWord_def Let_def split: option.splits)
  have start: "(\<exists>e. startGame g sid now' = Inl e)
        \<and> (Some sid = hostId g \<longrightarrow> startGame g sid now' = Inl AlreadyStarted)"
    if "status g \<noteq> Waiting"
    using that by (auto simp: startGame_def)
  show ?thesis
    using inactive active passed start
    by (simp add: validateWord_normal)
qed

theorem submitWord_checks_in_order_witness:
  "submitWord fallbackWordList (exampleGame FreeForAll) ''s1'' ''att'' 5000 =
     (Inl NotActive, exampleGame FreeForAll)
   \<and> submitWord fallbackWordList
        (run fallbackWordList (exampleGame FreeForAll)
          [JoinGame ''s1'' ''Alva'', StartGame ''s1'' 0]) ''s1'' '' at '' 5000 =
     (Inl (Invalid (TooShort 3)),
      run fallbackWordList (exampleGame FreeForAll)
        [JoinGame ''s1'' ''Alva'', StartGame ''s1'' 0])
   \<and> startGame
        (run fallbackWordList (exampleGame FreeForAll)
          [JoinGame ''s1'' ''Alva'', StartGame ''s1'' 0]) ''s1'' 7000 = Inl AlreadyStarted"
proof -
  let ?G = "run fallbackWordList (exampleGame FreeForAll)
    [JoinGame ''s1'' ''Alva'', StartGame ''s1'' 0]"
  have a: "status (exampleGame FreeForAll) \<noteq> Playing" by code_simp
  have b: "Map_get (players ?G) ''s1'' \<noteq> None" "status ?G = Playing" by code_simp+
  have c: "trim (toUpperCase '' at '') \<noteq> []"
    "int (length (trim (toUpperCase '' at ''))) < minWordLength ?G" by code_simp+
  have c': "minWordLength ?G = 3" by code_simp
  have d: "status ?G \<noteq> Waiting" "Some ''s1'' = hostId ?G" by code_simp+
  from a submitWord_checks_in_order
    [where g = "exampleGame FreeForAll" and pid = "''s1''" and wl = fallbackWordList
       and word = "''att''" and now = 5000]
  have 1: "submitWord fallbackWordList (exampleGame FreeForAll) ''s1'' ''att'' 5000 =
     (Inl NotActive, exampleGame FreeForAll)" by blast
  from b c submitWord_checks_in_order
    [where g = ?G and pid = "''s1''" and wl = fallbackWordList
       and word = "'' at ''" and now = 5000]
  have "submitWord fallbackWordList ?G ''s1'' '' at '' 5000 =
     (Inl (Invalid (TooShort (minWordLength ?G))), ?G)" by blast
  then have 2: "submitWord fallbackWordList ?G ''s1'' '' at '' 5000 =
     (Inl (Invalid (TooShort 3)), ?G)" by (simp only: c')
  from d submitWord_checks_in_order[where g = ?G and sid = "''s1''" and now' = 7000]
  have 3: "startGame ?G ''s1'' 7000 = Inl AlreadyStarted" by blast
  from 1 2 3 show ?thesis by blast
qed

subsection \<open>The claim ledger of a session\<close>

lemma set_update_subset: "set (AList.update k v al) \<subseteq> insert (k, v) (set al)"
  by (induction al) auto

lemma update_absent: "map_of al k = None \<Longrightarrow> AList.update k v al = al @ [(k, v)]"
  by (induction al) auto

text \<open>What one call of \<open>submitWord\<close> does, mode by mode.\<close>

lemma submitWord_rejected: "submitWord wl g pid word now = (Inl e, g') \<Longrightarrow> g' = g"
  by (auto simp: submitWord_def Let_def Map_has_def Map_get_def Map_set_def Set_has_def update_conv'
      split: option.splits if_splits)

lemma submitWord_Exclusive:
  assumes "mode g = Exclusive" "Map_get (players g) pid = Some p" "status g = Playing"
    and "validateWord wl (trim (toUpperCase word)) (letters g) (minWordLength g) = None"
  shows "submitWord wl g pid word now =
    (if Map_has (claims g) (trim (toUpperCase word)) then (Inl AlreadyClaimed, g)
     else (Inr \<lparr>ok_word = trim (toUpperCase word),
                ok_score = calculateExclusiveScore (trim (toUpperCase word)),
                totalScore = score p + calculateExclusiveScore (trim (toUpperCase word))\<rparr>,
           g\<lparr>claims := Map_set (claims g) (trim (toUpperCase word))
                \<lparr>playerId = pid, playerName = name p, timestamp = elapsedSeconds g now,
                  claim_score = calculateExclusiveScore (trim (toUpperCase word)),
                  claim_word = None\<rparr>,
             players := Map_set (players g) pid
                (p\<lparr>score := score p + calculateExclusiveScore (trim (toUpperCase word))\<rparr>)\<rparr>))"
  using assms by (simp add: submitWord_def Let_def)

lemma submitWord_FreeForAll:
  assumes "mode g \<noteq> Exclusive" "Map_get (players g) pid = Some p" "status g = Playing"
    and "validateWord wl (trim (toUpperCase word)) (letters g) (minWordLength g) = None"
    and "mine = (case Map_get (playerClaims g) pid of None \<Rightarrow> [] | Some s \<Rightarrow> s)"
    and "sc = calculateFreeForAllScore (trim (toUpperCase word)) (real_of_int (elapsedSeconds g now))"
  shows "submitWord wl g pid word now =
    (if trim (toUpperCase word) \<in> set mine then (Inl AlreadyUsed, g)
     else (Inr \<lparr>ok_word = trim (toUpperCase word), ok_score = sc, totalScore = score p + sc\<rparr>,
           g\<lparr>playerClaims := Map_set (playerClaims g) pid (mine @ [trim (toUpperCase word)]),
             claims := Map_set (claims g) (claimKey (trim (toUpperCase word)) pid)
                \<lparr>playerId = pid, playerName = name p, timestamp = elapsedSeconds g now,
                  claim_score = sc, claim_word = Some (trim (toUpperCase word))\<rparr>,
             players := Map_set (players g) pid (p\<lparr>score := score p + sc\<rparr>)\<rparr>))"
proof (cases "Map_get (playerClaims g) pid")
  case None
  with assms show ?thesis
    by (simp add: submitWord_def Let_def Map_has_def Map_get_def Map_set_def Set_has_def
        Set_add_def update_conv' elapsedSeconds_def)
next
  case (Some s)
  with assms show ?thesis
    by (simp add: submitWord_def Let_def Map_has_def Map_get_def Set_has_def Set_add_def)
qed


lemma submitWord_frame:
  "mode (snd (submitWord wl g pid word now)) = mode g
   \<and> letters (snd (submitWord wl g pid word now)) = letters g
   \<and> minWordLength (snd (submitWord wl g pid word now)) = minWordLength g"
  by (simp add: submitWord_def Let_def split: option.splits)

lemma joinGame_frame:
  "joinGame g sid nm = Inr (g', h) \<Longrightarrow>
   mode g' = mode g \<and> letters g' = letters g \<and> minWordLength g' = minWordLength g
   \<and> claims g' = claims g \<and> playerClaims g' = playerClaims g \<and> status g' = status g"
  by (auto simp: joinGame_def Let_def split: if_splits)

lemma startGame_frame:
  "startGame g sid now = Inr g' \<Longrightarrow>
   mode g' = mode g \<and> letters g' = letters g \<and> minWordLength g' = minWordLength g
   \<and> claims g' = claims g \<and> playerClaims g' = playerClaims g \<and> players g' = players g"
  by (auto simp: startGame_def startGameTimer_def split: if_splits)

lemma disconnect_frame:
  "mode (disconnect g sid) = mode g \<and> letters (disconnect g sid) = letters g
   \<and> minWordLength (disconnect g sid) = minWordLength g
   \<and> claims (disconnect g sid) = claims g \<and> playerClaims (disconnect g sid) = playerClaims g
   \<and> status (disconnect g sid) = status g"
  by (simp add: disconnect_def Let_def split: option.splits prod.splits)

lemma timerTick_frame:
  "mode (timerTick g now) = mode g \<and> letters (timerTick g now) = letters g
   \<and> minWordLength (timerTick g now) = minWordLength g
   \<and> claims (timerTick g now) = claims g \<and> playerClaims (timerTick g now) = playerClaims g
   \<and> players (timerTick g now) = players g"
  by (simp add: timerTick_def endGame_def Let_def)

lemma step_frame:
  "mode (step wl g ev) = mode g \<and> letters (step wl g ev) = letters g
   \<and> minWordLength (step wl g ev) = minWordLength g"
proof (cases ev)
  case (JoinGame sid nm)
  then show ?thesis using joinGame_frame[of g sid nm]
    by (auto split: sum.splits)
next
  case (StartGame sid now)
  then show ?thesis using startGame_frame[of g sid now]
    by (auto split: sum.splits)
next
  case (SubmitWord sid word now)
  then show ?thesis by (simp add: submitWord_frame)
next
  case (Disconnect sid)
  then show ?thesis by (simp add: disconnect_frame)
next
  case (TimerTick now)
  then show ?thesis by (simp add: timerTick_frame)
qed

lemma run_frame:
  "mode (run wl g evs) = mode g \<and> letters (run wl g evs) = letters g
   \<and> minWordLength (run wl g evs) = minWordLength g"
  unfolding run_def by (induction evs arbitrary: g) (simp_all add: step_frame)

lemma entry_ok_iff:
  "entry_ok wl g kc \<longleftrightarrow>
     (mode g = Exclusive \<longrightarrow>
        claim_word (snd kc) = None \<and> trim (toUpperCase (fst kc)) = fst kc
        \<and> validateWord wl (fst kc) (letters g) (minWordLength g) = None)
     \<and> (mode g \<noteq> Exclusive \<longrightarrow>
        (\<exists>w s. claim_word (snd kc) = Some w \<and> fst kc = claimKey w (playerId (snd kc))
           \<and> trim (toUpperCase w) = w
           \<and> validateWord wl w (letters g) (minWordLength g) = None
           \<and> Map_get (playerClaims g) (playerId (snd kc)) = Some s \<and> w \<in> set s))"
  by (auto simp: entry_ok_def Set_has_def split: prod.splits option.splits)

lemma ledger_ok_iff:
  "ledger_ok wl g \<longleftrightarrow> distinct (map fst (claims g)) \<and> (\<forall>kc\<in>set (claims g). entry_ok wl g kc)"
  by (simp add: ledger_ok_def list_all_iff)

lemma ledger_ok_same:
  assumes "claims g' = claims g" "playerClaims g' = playerClaims g" "mode g' = mode g"
    "letters g' = letters g" "minWordLength g' = minWordLength g"
  shows "ledger_ok wl g' = ledger_ok wl g"
  using assms by (simp add: ledger_ok_iff entry_ok_iff)

lemma ledger_ok_Exclusive:
  assumes ok: "ledger_ok wl g" and m: "mode g = Exclusive"
    and v: "validateWord wl u (letters g) (minWordLength g) = None"
    and n: "trim (toUpperCase u) = u"
    and c: "claim_word c = None"
  shows "ledger_ok wl (g\<lparr>claims := Map_set (claims g) u c, players := ps\<rparr>)"
proof -
  have "entry_ok wl (g\<lparr>claims := Map_set (claims g) u c, players := ps\<rparr>) kc"
    if "kc \<in> set (Map_set (claims g) u c)" for kc
  proof -
    from that set_update_subset[of u c "claims g"] have "kc = (u, c) \<or> kc \<in> set (claims g)"
      by (auto simp: Map_set_def)
    then show ?thesis
    proof
      assume "kc = (u, c)"
      with m v n c show ?thesis by (simp add: entry_ok_iff)
    next
      assume "kc \<in> set (claims g)"
      with ok have "entry_ok wl g kc" by (simp add: ledger_ok_iff)
      then show ?thesis by (simp add: entry_ok_iff)
    qed
  qed
  moreover from ok have "distinct (map fst (Map_set (claims g) u c))"
    by (simp add: ledger_ok_iff Map_set_def distinct_update)
  ultimately show ?thesis by (simp add: ledger_ok_iff)
qed

lemma ledger_ok_FreeForAll:
  assumes ok: "ledger_ok wl g" and m: "mode g \<noteq> Exclusive"
    and v: "validateWord wl u (letters g) (minWordLength g) = None"
    and n: "trim (toUpperCase u) = u"
    and c: "claim_word c = Some u" "playerId c = pid"
    and mine: "mine = (case Map_get (playerClaims g) pid of None \<Rightarrow> [] | Some s \<Rightarrow> s)"
  shows "ledger_ok wl (g\<lparr>playerClaims := Map_set (playerClaims g) pid (mine @ [u]),
      claims := Map_set (claims g) (claimKey u pid) c, players := ps\<rparr>)"
    (is "ledger_ok wl ?g'")
proof -
  have pc: "Map_get (playerClaims ?g') q =
      (if q = pid then Some (mine @ [u]) else Map_get (playerClaims g) q)" for q
    by (simp add: Map_get_def Map_set_def update_conv')
  have "entry_ok wl ?g' kc" if "kc \<in> set (Map_set (claims g) (claimKey u pid) c)" for kc
  proof -
    from that set_update_subset[of "claimKey u pid" c "claims g"]
    have "kc = (claimKey u pid, c) \<or> kc \<in> set (claims g)"
      by (auto simp: Map_set_def)
    then show ?thesis
    proof
      assume "kc = (claimKey u pid, c)"
      with m v n c show ?thesis
        unfolding entry_ok_iff pc by simp
    next
      assume "kc \<in> set (claims g)"
      with ok have "entry_ok wl g kc" by (simp add: ledger_ok_iff)
      with m obtain w s where w: "claim_word (snd kc) = Some w"
          "fst kc = claimKey w (playerId (snd kc))" "trim (toUpperCase w) = w"
          "validateWord wl w (letters g) (minWordLength g) = None"
          "Map_get (playerClaims g) (playerId (snd kc)) = Some s" "w \<in> set s"
        unfolding entry_ok_iff by blast
      show ?thesis
      proof (cases "playerId (snd kc) = pid")
        case True
        with w mine have "w \<in> set (mine @ [u])" by simp
        with w m True show ?thesis unfolding entry_ok_iff pc by simp
      next
        case False
        with w m show ?thesis unfolding entry_ok_iff pc by simp
      qed
    qed
  qed
  moreover from ok have "distinct (map fst (Map_set (claims g) (claimKey u pid) c))"
    by (simp add: ledger_ok_iff Map_set_def distinct_update)
  ultimately show ?thesis by (simp add: ledger_ok_iff)
qed

lemma submitWord_accepted_pre:
  assumes "fst (submitWord wl g pid word now) = Inr ok"
  shows "\<exists>p. Map_get (players g) pid = Some p \<and> status g = Playing
    \<and> validateWord wl (trim (toUpperCase word)) (letters g) (minWordLength g) = None"
proof (cases "Map_get (players g) pid")
  case None
  then have "submitWord wl g pid word now = (Inl NotActive, g)"
    by (simp add: submitWord_def)
  with assms show ?thesis by simp
next
  case (Some p)
  show ?thesis
  proof (cases "status g = Playing")
    case False
    with Some have "submitWord wl g pid word now = (Inl NotActive, g)"
      by (simp add: submitWord_def)
    with assms show ?thesis by simp
  next
    case True
    show ?thesis
    proof (cases "validateWord wl (trim (toUpperCase word)) (letters g) (minWordLength g)")
      case None
      with Some True show ?thesis by simp
    next
      case (Some e)
      with \<open>Map_get (players g) pid = Some p\<close> True
      have "submitWord wl g pid word now = (Inl (Invalid e), g)"
        by (simp add: submitWord_def Let_def)
      with assms show ?thesis by simp
    qed
  qed
qed

lemma ledger_ok_submitWord:
  assumes "ledger_ok wl g"
  shows "ledger_ok wl (snd (submitWord wl g pid word now))"
proof (cases "fst (submitWord wl g pid word now)")
  case (Inl e)
  then have "submitWord wl g pid word now = (Inl e, snd (submitWord wl g pid word now))"
    by (simp add: prod_eq_iff)
  then have "snd (submitWord wl g pid word now) = g"
    by (rule submitWord_rejected)
  with assms show ?thesis by simp
next
  case (Inr ok)
  then obtain p where p: "Map_get (players g) pid = Some p" and st: "status g = Playing"
    and v: "validateWord wl (trim (toUpperCase word)) (letters g) (minWordLength g) = None"
    using submitWord_accepted_pre by blast
  show ?thesis
  proof (cases "mode g = Exclusive")
    case True
    show ?thesis
    proof (cases "Map_has (claims g) (trim (toUpperCase word))")
      case True
      with Inr submitWord_Exclusive[OF \<open>mode g = Exclusive\<close> p st v, of now] show ?thesis by simp
    next
      case False
      have "ledger_ok wl (g\<lparr>claims := Map_set (claims g) (trim (toUpperCase word))
                \<lparr>playerId = pid, playerName = name p, timestamp = elapsedSeconds g now,
                  claim_score = calculateExclusiveScore (trim (toUpperCase word)),
                  claim_word = None\<rparr>,
             players := Map_set (players g) pid
                (p\<lparr>score := score p + calculateExclusiveScore (trim (toUpperCase word))\<rparr>)\<rparr>)"
        by (rule ledger_ok_Exclusive[OF assms True v normalize_idem]) simp
      with False show ?thesis
        by (simp only: submitWord_Exclusive[OF True p st v, of now] if_False snd_conv)
    qed
  next
    case False
    let ?mine = "case Map_get (playerClaims g) pid of None \<Rightarrow> [] | Some s \<Rightarrow> s"
    show ?thesis
    proof (cases "trim (toUpperCase word) \<in> set ?mine")
      case True
      with Inr submitWord_FreeForAll[OF False p st v refl refl, of now] show ?thesis by simp
    next
      case notmine: False
      have "ledger_ok wl (snd (if trim (toUpperCase word) \<in> set ?mine then (Inl AlreadyUsed, g)
        else (Inr \<lparr>ok_word = trim (toUpperCase word),
                ok_score = calculateFreeForAllScore (trim (toUpperCase word))
                   (real_of_int (elapsedSeconds g now)),
                totalScore = score p + calculateFreeForAllScore (trim (toUpperCase word))
                   (real_of_int (elapsedSeconds g now))\<rparr>,
           g\<lparr>playerClaims := Map_set (playerClaims g) pid (?mine @ [trim (toUpperCase word)]),
             claims := Map_set (claims g) (claimKey (trim (toUpperCase word)) pid)
                \<lparr>playerId = pid, playerName = name p, timestamp = elapsedSeconds g now,
                  claim_score = calculateFreeForAllScore (trim (toUpperCase word))
                     (real_of_int (elapsedSeconds g now)),
                  claim_word = Some (trim (toUpperCase word))\<rparr>,
             players := Map_set (players g) pid
               (p\<lparr>score := score p + calculateFreeForAllScore (trim (toUpperCase word))
                     (real_of_int (elapsedSeconds g now))\<rparr>)\<rparr>)))"
        unfolding if_not_P[OF notmine] snd_conv
        by (rule ledger_ok_FreeForAll[OF assms False v normalize_idem _ _ refl]) simp_all
      then show ?thesis
        by (simp only: submitWord_FreeForAll[OF False p st v refl refl, of now])
    qed
  qed
qed

lemma ledger_ok_step:
  assumes "ledger_ok wl g"
  shows "ledger_ok wl (step wl g ev)"
proof (cases ev)
  case (JoinGame sid nm)
  show ?thesis
  proof (cases "joinGame g sid nm")
    case (Inl e)
    with JoinGame assms show ?thesis by simp
  next
    case (Inr r)
    then have j: "joinGame g sid nm = Inr (fst r, snd r)" by simp
    from joinGame_frame[OF j] have "ledger_ok wl (fst r) = ledger_ok wl g"
      by (intro ledger_ok_same) simp_all
    with JoinGame Inr assms show ?thesis by (simp add: case_prod_beta)
  qed
next
  case (StartGame sid now)
  show ?thesis
  proof (cases "startGame g sid now")
    case (Inl e)
    with StartGame assms show ?thesis by simp
  next
    case (Inr g')
    from startGame_frame[OF Inr] have "ledger_ok wl g' = ledger_ok wl g"
      by (intro ledger_ok_same) simp_all
    with StartGame Inr assms show ?thesis by simp
  qed
next
  case (SubmitWord sid word now)
  with assms show ?thesis by (simp add: ledger_ok_submitWord)
next
  case (Disconnect sid)
  have "ledger_ok wl (disconnect g sid) = ledger_ok wl g"
    by (intro ledger_ok_same) (simp_all add: disconnect_frame)
  with Disconnect assms show ?thesis by simp
next
  case (TimerTick now)
  have "ledger_ok wl (timerTick g now) = ledger_ok wl g"
    by (intro ledger_ok_same) (simp_all add: timerTick_frame)
  with TimerTick assms show ?thesis by simp
qed

lemma ledger_ok_run: "ledger_ok wl g \<Longrightarrow> ledger_ok wl (run wl g evs)"
  unfolding run_def by (induction evs arbitrary: g) (simp_all add: ledger_ok_step)

lemma ledger_ok_createGame: "ledger_ok wl (createGame gid ls opts)"
  by (simp add: ledger_ok_iff createGame_def)

lemma submitWord_inactive:
  "Map_get (players g) pid = None \<or> status g \<noteq> Playing \<Longrightarrow>
   submitWord wl g pid word now = (Inl NotActive, g)"
  by (auto simp: submitWord_def split: option.splits)

lemma reachable_ledger_ok: "ledger_ok wl (run wl (createGame gid ls opts) evs)"
  by (simp add: ledger_ok_run ledger_ok_createGame)

lemma Map_has_entry: "Map_has m k \<Longrightarrow> \<exists>v. (k, v) \<in> set m"
  by (auto simp: Map_has_def dest: map_of_SomeD)

text \<open>
  C1. In a session in exclusive mode, after any sequence of events, the ledger has at
  most one entry for a word (its keys, the normalised words, are distinct), and a
  submission whose normalised word is in the ledger is rejected whoever submits it, the
  first claimant included, and leaves the session as it was: ledger and scores are
  unchanged. The reason is the already-claimed one when the submitter is in the player
  table and the round is being played, which is when a submission reaches the exclusive
  branch (the checks of C8 come first).
\<close>

theorem exclusive_claims_unique:
  assumes "g = run wl (createGame gid ls opts) evs" and "mode g = Exclusive"
  shows "distinct (map fst (claims g))
    \<and> (\<forall>pid word now. Map_has (claims g) (trim (toUpperCase word)) \<longrightarrow>
          (\<exists>e. submitWord wl g pid word now = (Inl e, g))
          \<and> (Map_has (players g) pid \<and> status g = Playing \<longrightarrow>
               submitWord wl g pid word now = (Inl AlreadyClaimed, g)))"
proof -
  from assms(1) have ok: "ledger_ok wl g" by (simp add: reachable_ledger_ok)
  have "submitWord wl g pid word now =
      (Inl (if Map_has (players g) pid \<and> status g = Playing
            then AlreadyClaimed else NotActive), g)"
    if has: "Map_has (claims g) (trim (toUpperCase word))" for pid word now
  proof (cases "Map_has (players g) pid \<and> status g = Playing")
    case False
    then have "Map_get (players g) pid = None \<or> status g \<noteq> Playing"
      by (auto simp: Map_has_def Map_get_def)
    from submitWord_inactive[OF this] False show ?thesis by simp
  next
    case True
    then obtain p where p: "Map_get (players g) pid = Some p"
      by (auto simp: Map_has_def Map_get_def)
    from has obtain c where "(trim (toUpperCase word), c) \<in> set (claims g)"
      using Map_has_entry by fastforce
    with ok have "entry_ok wl g (trim (toUpperCase word), c)" by (simp add: ledger_ok_iff)
    with assms(2)
    have v: "validateWord wl (trim (toUpperCase word)) (letters g) (minWordLength g) = None"
      by (simp add: entry_ok_iff)
    from True have st: "status g = Playing" by simp
    from submitWord_Exclusive[OF assms(2) p st v, of now] has True show ?thesis by simp
  qed
  then have "(\<exists>e. submitWord wl g pid word now = (Inl e, g))
      \<and> (Map_has (players g) pid \<and> status g = Playing \<longrightarrow>
           submitWord wl g pid word now = (Inl AlreadyClaimed, g))"
    if "Map_has (claims g) (trim (toUpperCase word))" for pid word now
    using that by simp
  moreover from ok have "distinct (map fst (claims g))" by (simp add: ledger_ok_iff)
  ultimately show ?thesis by blast
qed

theorem exclusive_claims_unique_witness:
  "mode exampleExclusiveRound = Exclusive
   \<and> Map_has (claims exampleExclusiveRound) (trim (toUpperCase '' Att''))
   \<and> submitWord fallbackWordList exampleExclusiveRound ''s2'' '' Att'' 12000 =
       (Inl AlreadyClaimed, exampleExclusiveRound)
   \<and> submitWord fallbackWordList exampleExclusiveRound ''s1'' '' Att'' 12000 =
       (Inl AlreadyClaimed, exampleExclusiveRound)"
proof -
  have r: "exampleExclusiveRound =
      run fallbackWordList
        (createGame ''ABC234'' ''ATTOCH'' (defaultOptions\<lparr>opt_mode := Some Exclusive\<rparr>))
        [JoinGame ''s1'' ''Alva'', JoinGame ''s2'' ''Bo'', StartGame ''s1'' 0,
         SubmitWord ''s1'' ''att'' 10000]"
    by (simp add: exampleExclusiveRound_def exampleGame_def)
  have m: "mode exampleExclusiveRound = Exclusive" by code_simp
  have h: "Map_has (claims exampleExclusiveRound) (trim (toUpperCase '' Att''))" by code_simp
  have p: "Map_has (players exampleExclusiveRound) ''s1''"
    "Map_has (players exampleExclusiveRound) ''s2''"
    "status exampleExclusiveRound = Playing" by code_simp+
  from exclusive_claims_unique[OF r m] m h p show ?thesis by simp
qed

lemma eq_key_same_entry:
  "distinct (map fst al) \<Longrightarrow> (k, v) \<in> set al \<Longrightarrow> (k, v') \<in> set al \<Longrightarrow> v = v'"
  by (meson eq_key_imp_eq_value)

text \<open>
  C7. In a session in free-for-all mode, after any sequence of events, no two entries of
  the ledger have the same word and the same player id. A player (a socket id of the
  player table) who submits, during the round, a word of one of their entries is
  rejected with the already-used reason and the session is unchanged. When a player
  claims a word, another player who has not used it is accepted for the same word, and
  each score is the free-for-all score at that player's own elapsed time; both entries
  are in the ledger.
\<close>

theorem freeforall_claims_per_player:
  assumes "g = run wl (createGame gid ls opts) evs" and "mode g = FreeForAll"
  shows "distinct (map (\<lambda>(k, c). (claim_word c, playerId c)) (claims g))
    \<and> (\<forall>(k, c)\<in>set (claims g). \<forall>word now.
          claim_word c = Some (trim (toUpperCase word))
          \<and> Map_has (players g) (playerId c) \<and> status g = Playing \<longrightarrow>
          submitWord wl g (playerId c) word now = (Inl AlreadyUsed, g))
    \<and> (\<forall>p1 p2 word t1 t2 ok1 g1.
          p1 \<noteq> p2 \<and> submitWord wl g p1 word t1 = (Inr ok1, g1)
          \<and> Map_has (players g) p2
          \<and> \<not> Set_has (case Map_get (playerClaims g) p2 of None \<Rightarrow> [] | Some s \<Rightarrow> s)
                 (trim (toUpperCase word)) \<longrightarrow>
          (\<exists>ok2 g2. submitWord wl g1 p2 word t2 = (Inr ok2, g2)
             \<and> ok_score ok1 = calculateFreeForAllScore (trim (toUpperCase word))
                  (real_of_int (elapsedSeconds g t1))
             \<and> ok_score ok2 = calculateFreeForAllScore (trim (toUpperCase word))
                  (real_of_int (elapsedSeconds g t2))
             \<and> Map_has (claims g2) (claimKey (trim (toUpperCase word)) p1)
             \<and> Map_has (claims g2) (claimKey (trim (toUpperCase word)) p2)))"
proof -
  from assms(1) have ok: "ledger_ok wl g" by (simp add: reachable_ledger_ok)
  from assms(2) have m: "mode g \<noteq> Exclusive" by simp
  have entry: "\<exists>w s. claim_word c = Some w \<and> k = claimKey w (playerId c)
      \<and> validateWord wl w (letters g) (minWordLength g) = None
      \<and> Map_get (playerClaims g) (playerId c) = Some s \<and> w \<in> set s"
    if "(k, c) \<in> set (claims g)" for k c
  proof -
    from ok that have "entry_ok wl g (k, c)" by (simp add: ledger_ok_iff)
    with m show ?thesis unfolding entry_ok_iff by auto
  qed
  have dk: "distinct (map fst (claims g))" using ok by (simp add: ledger_ok_iff)
  have 1: "distinct (map (\<lambda>(k, c). (claim_word c, playerId c)) (claims g))"
  proof -
    have "inj_on (\<lambda>(k, c). (claim_word c, playerId c)) (set (claims g))"
    proof (rule inj_onI)
      fix x y assume x: "x \<in> set (claims g)" and y: "y \<in> set (claims g)"
        and e: "(case x of (k, c) \<Rightarrow> (claim_word c, playerId c)) =
                (case y of (k, c) \<Rightarrow> (claim_word c, playerId c))"
      obtain k c k' c' where xy: "x = (k, c)" "y = (k', c')" by (metis surj_pair)
      from entry[of k c] entry[of k' c'] x y e xy have "k = k'" by auto
      with dk x y xy have "c = c'" by (metis eq_key_same_entry)
      with \<open>k = k'\<close> xy show "x = y" by simp
    qed
    moreover from dk have "distinct (claims g)" by (metis distinct_map)
    ultimately show ?thesis by (simp add: distinct_map)
  qed
  have 2: "submitWord wl g (playerId c) word now = (Inl AlreadyUsed, g)"
    if kc: "(k, c) \<in> set (claims g)" and w: "claim_word c = Some (trim (toUpperCase word))"
      and pl: "Map_has (players g) (playerId c)" and st: "status g = Playing"
    for k c word now
  proof -
    from pl obtain p where p: "Map_get (players g) (playerId c) = Some p"
      by (auto simp: Map_has_def Map_get_def)
    from entry[OF kc] w obtain s where
      v: "validateWord wl (trim (toUpperCase word)) (letters g) (minWordLength g) = None"
      and s: "Map_get (playerClaims g) (playerId c) = Some s" "trim (toUpperCase word) \<in> set s"
      by auto
    from submitWord_FreeForAll[OF m p st v refl refl, of now] s show ?thesis by simp
  qed
  have 3: "\<exists>ok2 g2. submitWord wl g1 p2 word t2 = (Inr ok2, g2)
             \<and> ok_score ok1 = calculateFreeForAllScore (trim (toUpperCase word))
                  (real_of_int (elapsedSeconds g t1))
             \<and> ok_score ok2 = calculateFreeForAllScore (trim (toUpperCase word))
                  (real_of_int (elapsedSeconds g t2))
             \<and> Map_has (claims g2) (claimKey (trim (toUpperCase word)) p1)
             \<and> Map_has (claims g2) (claimKey (trim (toUpperCase word)) p2)"
    if ne: "p1 \<noteq> p2" and s1: "submitWord wl g p1 word t1 = (Inr ok1, g1)"
      and pl: "Map_has (players g) p2"
      and fresh: "\<not> Set_has (case Map_get (playerClaims g) p2 of None \<Rightarrow> [] | Some s \<Rightarrow> s)
                 (trim (toUpperCase word))"
    for p1 p2 word t1 t2 ok1 g1
  proof -
    let ?u = "trim (toUpperCase word)"
    from s1 have "fst (submitWord wl g p1 word t1) = Inr ok1" by simp
    from submitWord_accepted_pre[OF this] obtain q1 where
      q1: "Map_get (players g) p1 = Some q1" and st: "status g = Playing"
      and v: "validateWord wl ?u (letters g) (minWordLength g) = None" by blast
    let ?mine1 = "case Map_get (playerClaims g) p1 of None \<Rightarrow> [] | Some s \<Rightarrow> s"
    let ?sc1 = "calculateFreeForAllScore ?u (real_of_int (elapsedSeconds g t1))"
    let ?c1 = "\<lparr>playerId = p1, playerName = name q1, timestamp = elapsedSeconds g t1,
                  claim_score = ?sc1, claim_word = Some ?u\<rparr>"
    from submitWord_FreeForAll[OF m q1 st v refl refl, of t1] s1
    have ok1: "ok1 = \<lparr>ok_word = ?u, ok_score = ?sc1, totalScore = score q1 + ?sc1\<rparr>"
      and g1: "g1 = g\<lparr>playerClaims := Map_set (playerClaims g) p1 (?mine1 @ [?u]),
             claims := Map_set (claims g) (claimKey ?u p1) ?c1,
             players := Map_set (players g) p1 (q1\<lparr>score := score q1 + ?sc1\<rparr>)\<rparr>"
      by (auto split: if_splits)
    from pl obtain q2 where q2: "Map_get (players g) p2 = Some q2"
      by (auto simp: Map_has_def Map_get_def)
    from q2 ne g1 have q2': "Map_get (players g1) p2 = Some q2"
      by (simp add: Map_get_def Map_set_def update_conv')
    from g1 m have m1: "mode g1 \<noteq> Exclusive" by simp
    from g1 st have st1: "status g1 = Playing" by simp
    from g1 v have v1: "validateWord wl ?u (letters g1) (minWordLength g1) = None" by simp
    from g1 ne have pc: "Map_get (playerClaims g1) p2 = Map_get (playerClaims g) p2"
      by (simp add: Map_get_def Map_set_def update_conv')
    from g1 have el: "elapsedSeconds g1 t2 = elapsedSeconds g t2"
      by (simp add: elapsedSeconds_def)
    let ?mine2 = "case Map_get (playerClaims g) p2 of None \<Rightarrow> [] | Some s \<Rightarrow> s"
    let ?sc2 = "calculateFreeForAllScore ?u (real_of_int (elapsedSeconds g t2))"
    from fresh have nf: "?u \<notin> set ?mine2" by (simp add: Set_has_def)
    from submitWord_FreeForAll[OF m1 q2' st1 v1 refl refl, of t2] nf
    have s2: "submitWord wl g1 p2 word t2 =
      (Inr \<lparr>ok_word = ?u, ok_score = ?sc2, totalScore = score q2 + ?sc2\<rparr>,
       g1\<lparr>playerClaims := Map_set (playerClaims g1) p2 (?mine2 @ [?u]),
          claims := Map_set (claims g1) (claimKey ?u p2)
            \<lparr>playerId = p2, playerName = name q2, timestamp = elapsedSeconds g t2,
              claim_score = ?sc2, claim_word = Some ?u\<rparr>,
          players := Map_set (players g1) p2 (q2\<lparr>score := score q2 + ?sc2\<rparr>)\<rparr>)"
      by (simp add: pc el)
    have "Map_has (Map_set (Map_set (claims g) (claimKey ?u p1) ?c1) (claimKey ?u p2) c2)
        (claimKey ?u p1)" for c2
      by (simp add: Map_has_def Map_set_def update_conv')
    moreover have "Map_has (Map_set cs (claimKey ?u p2) c2) (claimKey ?u p2)" for cs c2
      by (simp add: Map_has_def Map_set_def update_conv')
    ultimately show ?thesis using s2 ok1 g1 by simp
  qed
  from 1 2 3 show ?thesis by blast
qed


theorem freeforall_claims_per_player_witness:
  "mode exampleFreeForAllRound = FreeForAll
   \<and> submitWord fallbackWordList exampleFreeForAllRound ''s1'' '' Att'' 20000 =
       (Inl AlreadyUsed, exampleFreeForAllRound)
   \<and> fst (submitWord fallbackWordList exampleFreeForAllRound ''s1'' ''och'' 15000) =
       Inr \<lparr>ok_word = ''OCH'', ok_score = 135, totalScore = 285\<rparr>
   \<and> (\<exists>ok2 g2.
        submitWord fallbackWordList
          (snd (submitWord fallbackWordList exampleFreeForAllRound ''s1'' ''och'' 15000))
          ''s2'' ''och'' 30000 = (Inr ok2, g2)
        \<and> ok_score ok2 = 90)"
proof -
  let ?G = exampleFreeForAllRound
  let ?c = "\<lparr>playerId = ''s1'', playerName = ''Alva'', timestamp = 10,
             claim_score = 150, claim_word = Some ''ATT''\<rparr>"
  have r: "?G =
      run fallbackWordList
        (createGame ''ABC234'' ''ATTOCH'' (defaultOptions\<lparr>opt_mode := Some FreeForAll\<rparr>))
        [JoinGame ''s1'' ''Alva'', JoinGame ''s2'' ''Bo'', StartGame ''s1'' 0,
         SubmitWord ''s1'' ''att'' 10000]"
    by (simp add: exampleFreeForAllRound_def exampleGame_def)
  have m: "mode ?G = FreeForAll" by code_simp
  have e: "(''ATT-s1'', ?c) \<in> set (claims ?G)" by code_simp
  have w: "claim_word ?c = Some (trim (toUpperCase '' Att''))" by code_simp
  have p: "Map_has (players ?G) (playerId ?c)" "Map_has (players ?G) ''s2''"
    "status ?G = Playing" by code_simp+
  have f: "\<not> Set_has (case Map_get (playerClaims ?G) ''s2'' of None \<Rightarrow> [] | Some s \<Rightarrow> s)
      (trim (toUpperCase ''och''))" by code_simp
  have a: "fst (submitWord fallbackWordList ?G ''s1'' ''och'' 15000) =
       Inr \<lparr>ok_word = ''OCH'', ok_score = 135, totalScore = 285\<rparr>" by code_simp
  then have a': "submitWord fallbackWordList ?G ''s1'' ''och'' 15000 =
       (Inr \<lparr>ok_word = ''OCH'', ok_score = 135, totalScore = 285\<rparr>,
        snd (submitWord fallbackWordList ?G ''s1'' ''och'' 15000))"
    by (simp add: prod_eq_iff)
  have v: "calculateFreeForAllScore (trim (toUpperCase ''och''))
      (real_of_int (elapsedSeconds ?G 30000)) = 90" by code_simp
  have ne: "''s1'' \<noteq> ''s2''" by simp
  note inst = freeforall_claims_per_player[OF r m]
  from inst e w p have 1: "submitWord fallbackWordList ?G ''s1'' '' Att'' 20000 =
       (Inl AlreadyUsed, ?G)" by fastforce
  have pre: "''s1'' \<noteq> ''s2''
      \<and> submitWord fallbackWordList ?G ''s1'' ''och'' 15000 =
       (Inr \<lparr>ok_word = ''OCH'', ok_score = 135, totalScore = 285\<rparr>,
        snd (submitWord fallbackWordList ?G ''s1'' ''och'' 15000))
      \<and> Map_has (players ?G) ''s2''
      \<and> \<not> Set_has (case Map_get (playerClaims ?G) ''s2'' of None \<Rightarrow> [] | Some s \<Rightarrow> s)
          (trim (toUpperCase ''och''))"
    using ne a' p(2) f by blast
  from inst[THEN conjunct2, THEN conjunct2, rule_format, OF pre, of 30000]
  obtain ok2 g2 where
    "submitWord fallbackWordList
          (snd (submitWord fallbackWordList ?G ''s1'' ''och'' 15000))
          ''s2'' ''och'' 30000 = (Inr ok2, g2)"
    "ok_score ok2 = calculateFreeForAllScore (trim (toUpperCase ''och''))
      (real_of_int (elapsedSeconds ?G 30000))"
    by blast
  with v have 2: "\<exists>ok2 g2.
        submitWord fallbackWordList
          (snd (submitWord fallbackWordList ?G ''s1'' ''och'' 15000))
          ''s2'' ''och'' 30000 = (Inr ok2, g2)
        \<and> ok_score ok2 = 90" by auto
  from m 1 a 2 show ?thesis by blast
qed

subsection \<open>The enumeration of the possible words\<close>









lemma validateWord_None_normal:
  assumes "validateWord wl u ls m = None" "trim (toUpperCase u) = u"
  shows "u \<in> set wl \<and> int (length u) \<ge> m \<and> canFormWord u ls \<and> u \<noteq> []"
proof -
  from assms(2) have up: "toUpperCase u = u"
    by (metis toUpperCase_trim_toUpperCase)
  from assms show ?thesis
    by (simp add: validateWord_def up isValidSwedishWord_def Set_has_def split: if_splits)
qed




subsection \<open>Joining a session\<close>






subsection \<open>The points of a player and the ledger\<close>

text \<open>
  A ledger entry records the socket id and the display name of the claimant. The names
  of the player table are distinct, and as long as no letter of the game is a hyphen (the
  letters \<open>generateLetters\<close> draws from are A to Z and three Swedish vowels, and the key
  of a free-for-all entry joins word and socket id with a hyphen), every accepted
  submission appends one entry: the points of a player are the points of the entries
  that bear the player's name, after any sequence of events (\<open>ledger_sum_by_name\<close>).
\<close>

lemma roster_ok_iff:
  "roster_ok g \<longleftrightarrow>
     distinct (map fst (players g)) \<and> distinct (map (\<lambda>ip. name (snd ip)) (players g))
     \<and> (\<forall>kc\<in>set (claims g). playerName (snd kc) \<in> set (map (\<lambda>ip. name (snd ip)) (players g)))
     \<and> (\<forall>ip\<in>set (players g). score (snd ip) = nameScore g (name (snd ip)))"
  by (simp add: roster_ok_def list_all_iff case_prod_unfold)

lemma nameScore_append:
  "claims g' = claims g @ [(k, c)] \<Longrightarrow>
   nameScore g' nm = nameScore g nm + (if playerName c = nm then claim_score c else 0)"
  by (simp add: nameScore_def)

lemma nameScore_same: "claims g' = claims g \<Longrightarrow> nameScore g' nm = nameScore g nm"
  by (simp add: nameScore_def)

lemma replace_keys:
  "map_of ps k = Some p \<Longrightarrow> map fst (AList.update k p' ps) = map fst ps"
  by (induction ps) (auto split: if_splits)

lemma replace_names:
  "map_of ps k = Some p \<Longrightarrow> name p' = name p \<Longrightarrow>
   map (\<lambda>ip. name (snd ip)) (AList.update k p' ps) = map (\<lambda>ip. name (snd ip)) ps"
  by (induction ps) (auto split: if_splits)

lemma replace_set:
  "distinct (map fst ps) \<Longrightarrow> map_of ps k = Some p \<Longrightarrow>
   set (AList.update k p' ps) = insert (k, p') (set ps - {(k, p)})"
proof (induction ps)
  case Nil
  then show ?case by simp
next
  case (Cons a ps)
  show ?case
  proof (cases "fst a = k")
    case True
    with Cons.prems have a: "a = (k, p)" by (cases a) simp
    from Cons.prems True have "(k, p) \<notin> set ps" by (auto simp: image_iff)
    with a show ?thesis by auto
  next
    case False
    with Cons.prems have "map_of ps k = Some p" by (cases a) simp
    with Cons have ih: "set (AList.update k p' ps) = insert (k, p') (set ps - {(k, p)})" by simp
    from False have "AList.update k p' (a # ps) = a # AList.update k p' ps" by (cases a) simp
    with ih False show ?thesis by auto
  qed
qed


lemma same_name_same_entry:
  assumes "distinct (map (\<lambda>ip. name (snd ip)) ps)" "x \<in> set ps" "y \<in> set ps"
    and "name (snd x) = name (snd y)"
  shows "x = y"
  using assms by (meson distinct_map inj_onD)

lemma nameScore_absent:
  assumes "\<forall>kc\<in>set (claims g). playerName (snd kc) \<noteq> nm"
  shows "nameScore g nm = 0"
proof -
  from assms have "filter (\<lambda>(_, c). playerName c = nm) (claims g) = []"
    by (auto simp: filter_empty_conv)
  then show ?thesis by (simp add: nameScore_def)
qed

text \<open>A player gets the points of a new ledger entry that bears the player's name.\<close>

lemma roster_ok_accept:
  assumes ok: "roster_ok g" and p: "Map_get (players g) pid = Some p"
    and c: "playerName c = name p"
    and cl: "claims g' = claims g @ [(k, c)]"
    and pl: "players g' = Map_set (players g) pid (p\<lparr>score := score p + claim_score c\<rparr>)"
  shows "roster_ok g'"
proof -
  let ?p' = "p\<lparr>score := score p + claim_score c\<rparr>"
  from ok have d: "distinct (map fst (players g))"
    and dn: "distinct (map (\<lambda>ip. name (snd ip)) (players g))"
    and l: "\<forall>kc\<in>set (claims g). playerName (snd kc) \<in> set (map (\<lambda>ip. name (snd ip)) (players g))"
    and s: "\<forall>ip\<in>set (players g). score (snd ip) = nameScore g (name (snd ip))"
    by (simp_all add: roster_ok_iff)
  from p have mp: "map_of (players g) pid = Some p" by (simp add: Map_get_def)
  then have inp: "(pid, p) \<in> set (players g)" by (rule map_of_SomeD)
  have keys: "map fst (players g') = map fst (players g)"
    unfolding pl Map_set_def by (rule replace_keys[OF mp])
  have names: "map (\<lambda>ip. name (snd ip)) (players g') = map (\<lambda>ip. name (snd ip)) (players g)"
    unfolding pl Map_set_def by (rule replace_names[OF mp]) simp
  have sets: "set (players g') = insert (pid, ?p') (set (players g) - {(pid, p)})"
    unfolding pl Map_set_def by (rule replace_set[OF d mp])
  from inp have np: "name p \<in> set (map (\<lambda>ip. name (snd ip)) (players g))"
    by (simp add: image_iff) (rule bexI[of _ "(pid, p)"], simp_all)
  have l': "\<forall>kc\<in>set (claims g'). playerName (snd kc) \<in> set (map (\<lambda>ip. name (snd ip)) (players g))"
  proof
    fix kc assume "kc \<in> set (claims g')"
    with cl have "kc = (k, c) \<or> kc \<in> set (claims g)" by auto
    then show "playerName (snd kc) \<in> set (map (\<lambda>ip. name (snd ip)) (players g))"
    proof
      assume "kc = (k, c)"
      then have "playerName (snd kc) = name p" using c by simp
      with np show ?thesis by (simp only:)
    next
      assume "kc \<in> set (claims g)"
      with l show ?thesis by (rule bspec)
    qed
  qed
  from s inp have "score (snd (pid, p)) = nameScore g (name (snd (pid, p)))" by (rule bspec)
  then have sp: "score p = nameScore g (name p)" by simp
  have s': "\<forall>ip\<in>set (players g'). score (snd ip) = nameScore g' (name (snd ip))"
  proof
    fix ip assume "ip \<in> set (players g')"
    with sets have "ip = (pid, ?p') \<or> (ip \<in> set (players g) \<and> ip \<noteq> (pid, p))" by auto
    then show "score (snd ip) = nameScore g' (name (snd ip))"
    proof
      assume ip: "ip = (pid, ?p')"
      have "nameScore g' (name p) = nameScore g (name p) + claim_score c"
        using nameScore_append[OF cl, of "name p"] c by simp
      with sp ip show ?thesis by simp
    next
      assume ip: "ip \<in> set (players g) \<and> ip \<noteq> (pid, p)"
      have ne: "name (snd ip) \<noteq> name p"
      proof
        assume "name (snd ip) = name p"
        then have "name (snd ip) = name (snd (pid, p))" by simp
        from same_name_same_entry[OF dn _ inp this] ip show False by simp
      qed
      have "nameScore g' (name (snd ip)) = nameScore g (name (snd ip))"
        using nameScore_append[OF cl, of "name (snd ip)"] c ne by simp
      moreover from s ip have "score (snd ip) = nameScore g (name (snd ip))" by blast
      ultimately show ?thesis by simp
    qed
  qed
  from d dn l' s' show ?thesis unfolding roster_ok_iff keys names by (simp only: simp_thms)
qed

lemma roster_ok_disconnect:
  assumes ok: "roster_ok g"
  shows "roster_ok (disconnect g sid)"
proof (cases "Map_get (players g) sid")
  case None
  with ok show ?thesis by (simp add: disconnect_def)
next
  case (Some p)
  let ?p' = "p\<lparr>connected := False\<rparr>"
  let ?g' = "disconnect g sid"
  from ok have d: "distinct (map fst (players g))"
    and dn: "distinct (map (\<lambda>ip. name (snd ip)) (players g))"
    and l: "\<forall>kc\<in>set (claims g). playerName (snd kc) \<in> set (map (\<lambda>ip. name (snd ip)) (players g))"
    and s: "\<forall>ip\<in>set (players g). score (snd ip) = nameScore g (name (snd ip))"
    by (simp_all add: roster_ok_iff)
  from Some have mp: "map_of (players g) sid = Some p" by (simp add: Map_get_def)
  then have inp: "(sid, p) \<in> set (players g)" by (rule map_of_SomeD)
  from Some have pl: "players ?g' = AList.update sid ?p' (players g)"
    by (simp add: disconnect_def Let_def Map_set_def split: option.splits prod.splits)
  have cl: "claims ?g' = claims g" by (simp add: disconnect_frame)
  have keys: "map fst (players ?g') = map fst (players g)"
    unfolding pl by (rule replace_keys[OF mp])
  have names: "map (\<lambda>ip. name (snd ip)) (players ?g') = map (\<lambda>ip. name (snd ip)) (players g)"
    unfolding pl by (rule replace_names[OF mp]) simp
  have sets: "set (players ?g') = insert (sid, ?p') (set (players g) - {(sid, p)})"
    unfolding pl by (rule replace_set[OF d mp])
  have s': "\<forall>ip\<in>set (players ?g'). score (snd ip) = nameScore ?g' (name (snd ip))"
  proof
    fix ip assume "ip \<in> set (players ?g')"
    with sets have "ip = (sid, ?p') \<or> ip \<in> set (players g)" by auto
    then show "score (snd ip) = nameScore ?g' (name (snd ip))"
    proof
      assume ip: "ip = (sid, ?p')"
      from s inp have "score p = nameScore g (name p)" by force
      with ip show ?thesis by (simp add: nameScore_same[OF cl])
    next
      assume "ip \<in> set (players g)"
      with s show ?thesis by (simp add: nameScore_same[OF cl])
    qed
  qed
  from d dn l s' show ?thesis unfolding roster_ok_iff keys names cl by simp
qed


lemma roster_ok_join_new:
  assumes ok: "roster_ok g" and new: "map_of (players g) sid = None"
    and nm: "name p0 \<notin> set (map (\<lambda>ip. name (snd ip)) (players g))" and sc: "score p0 = 0"
    and pl: "players g' = Map_set (players g) sid p0" and cl: "claims g' = claims g"
  shows "roster_ok g'"
proof -
  from ok have d: "distinct (map fst (players g))"
    and dn: "distinct (map (\<lambda>ip. name (snd ip)) (players g))"
    and l: "\<forall>kc\<in>set (claims g). playerName (snd kc) \<in> set (map (\<lambda>ip. name (snd ip)) (players g))"
    and s: "\<forall>ip\<in>set (players g). score (snd ip) = nameScore g (name (snd ip))"
    by (simp_all add: roster_ok_iff)
  from new pl have pl': "players g' = players g @ [(sid, p0)]"
    by (simp add: Map_set_def update_absent)
  from new have k: "sid \<notin> set (map fst (players g))"
    by (metis map_of_eq_None_iff set_map)
  from l nm have "\<forall>kc\<in>set (claims g). playerName (snd kc) \<noteq> name p0" by metis
  then have z: "nameScore g (name p0) = 0" by (rule nameScore_absent)
  have s': "\<forall>ip\<in>set (players g'). score (snd ip) = nameScore g' (name (snd ip))"
  proof
    fix ip assume "ip \<in> set (players g')"
    with pl' have "ip = (sid, p0) \<or> ip \<in> set (players g)" by auto
    then show "score (snd ip) = nameScore g' (name (snd ip))"
    proof
      assume "ip = (sid, p0)"
      with z sc show ?thesis by (simp add: nameScore_same[OF cl])
    next
      assume "ip \<in> set (players g)"
      with s show ?thesis by (simp add: nameScore_same[OF cl])
    qed
  qed
  from l have l': "\<forall>kc\<in>set (claims g). playerName (snd kc) \<in>
      set (map (\<lambda>ip. name (snd ip)) (players g @ [(sid, p0)]))" by auto
  from d dn k nm l' s' show ?thesis unfolding roster_ok_iff cl pl' by simp
qed

lemma delete_filter: "AList.delete k al = filter (\<lambda>ip. fst ip \<noteq> k) al"
  by (induction al) auto

lemma delete_set:
  fixes al :: "('a \<times> 'b) list"
  assumes "distinct (map fst al)" "(k, v) \<in> set al"
  shows "set (AList.delete k al) = set al - {(k, v)}"
proof -
  have same: "b = v" if "(k, b) \<in> set al" for b
    using eq_key_same_entry[OF assms(1) that assms(2)] .
  have "{ip \<in> set al. fst ip \<noteq> k} = set al - {(k, v)}"
  proof (rule set_eqI)
    fix ip :: "'a \<times> 'b"
    obtain a b where ip: "ip = (a, b)" by (cases ip)
    show "ip \<in> {ip \<in> set al. fst ip \<noteq> k} \<longleftrightarrow> ip \<in> set al - {(k, v)}"
    proof
      assume "ip \<in> {ip \<in> set al. fst ip \<noteq> k}"
      then have "ip \<in> set al" "fst ip \<noteq> k" by simp_all
      then show "ip \<in> set al - {(k, v)}" by (cases "ip = (k, v)") simp_all
    next
      assume r: "ip \<in> set al - {(k, v)}"
      have "a \<noteq> k"
      proof
        assume "a = k"
        with r ip have "(k, b) \<in> set al" by simp
        then have "b = v" by (rule same)
        with \<open>a = k\<close> ip r show False by simp
      qed
      with r ip show "ip \<in> {ip \<in> set al. fst ip \<noteq> k}" by simp
    qed
  qed
  then show ?thesis by (simp add: delete_filter)
qed

lemma absent_key: "map_of al k = None \<Longrightarrow> k \<notin> set (map fst al)"
  by (simp add: map_of_eq_None_iff)

lemma names_of_rebind:
  assumes "(k, v) \<in> set al" "f v' = f v"
  shows "insert (f v') ((\<lambda>ip. f (snd ip)) ` (set al - {(k, v)})) = (\<lambda>ip. f (snd ip)) ` set al"
proof -
  have "(\<lambda>ip. f (snd ip)) ` set al = (\<lambda>ip. f (snd ip)) ` insert (k, v) (set al - {(k, v)})"
    by (simp only: insert_Diff[OF assms(1)])
  also have "\<dots> = insert (f v) ((\<lambda>ip. f (snd ip)) ` (set al - {(k, v)}))"
    by (simp only: image_insert snd_conv)
  finally show ?thesis by (simp only: assms(2))
qed

lemma roster_ok_rebind:
  assumes ok: "roster_ok g" and new: "map_of (players g) sid = None"
    and old: "(old, p) \<in> set (players g)"
    and p': "name p' = name p" "score p' = score p"
    and pl: "players g' = Map_set (Map_delete (players g) old) sid p'"
    and cl: "claims g' = claims g"
  shows "roster_ok g'"
proof -
  from ok have d: "distinct (map fst (players g))"
    and dn: "distinct (map (\<lambda>ip. name (snd ip)) (players g))"
    and l: "\<forall>kc\<in>set (claims g). playerName (snd kc) \<in> set (map (\<lambda>ip. name (snd ip)) (players g))"
    and s: "\<forall>ip\<in>set (players g). score (snd ip) = nameScore g (name (snd ip))"
    by (simp_all add: roster_ok_iff)
  let ?rest = "AList.delete old (players g)"
  have rs: "set ?rest = set (players g) - {(old, p)}" by (rule delete_set[OF d old])
  have sub: "set ?rest \<subseteq> set (players g)" unfolding rs by (rule Diff_subset)
  from new have k: "sid \<notin> set (map fst (players g))" by (rule absent_key)
  with sub have k': "sid \<notin> set (map fst ?rest)" by auto
  then have "map_of ?rest sid = None" by (simp add: map_of_eq_None_iff)
  then have "AList.update sid p' ?rest = ?rest @ [(sid, p')]" by (rule update_absent)
  with pl have pl': "players g' = ?rest @ [(sid, p')]"
    by (simp only: Map_set_def Map_delete_def)
  from d have d': "distinct (map fst ?rest)" by (rule distinct_delete)
  from dn have dn': "distinct (map (\<lambda>ip. name (snd ip)) ?rest)"
    unfolding delete_filter by (rule distinct_map_filter)
  have nn: "name p' \<notin> set (map (\<lambda>ip. name (snd ip)) ?rest)"
  proof
    assume "name p' \<in> set (map (\<lambda>ip. name (snd ip)) ?rest)"
    then obtain ip where ip: "ip \<in> set ?rest" "name (snd ip) = name p'" by auto
    from ip(1) have in_g: "ip \<in> set (players g)" and ne: "ip \<noteq> (old, p)"
      unfolding rs by simp_all
    from ip(2) p'(1) have "name (snd ip) = name (snd (old, p))" by simp
    from same_name_same_entry[OF dn in_g old this] ne show False by simp
  qed
  have ns: "set (map (\<lambda>ip. name (snd ip)) (players g')) =
      set (map (\<lambda>ip. name (snd ip)) (players g))"
  proof -
    have "set (map (\<lambda>ip. name (snd ip)) (players g')) =
        insert (name p') ((\<lambda>ip. name (snd ip)) ` (set (players g) - {(old, p)}))"
      unfolding pl' by (simp add: rs)
    also have "\<dots> = (\<lambda>ip. name (snd ip)) ` set (players g)"
      by (rule names_of_rebind[OF old p'(1)])
    finally show ?thesis by simp
  qed
  from s old have "score (snd (old, p)) = nameScore g (name (snd (old, p)))" by (rule bspec)
  then have sp: "score p = nameScore g (name p)" by simp
  have s': "\<forall>ip\<in>set (players g'). score (snd ip) = nameScore g' (name (snd ip))"
  proof
    fix ip assume "ip \<in> set (players g')"
    then have "ip = (sid, p') \<or> ip \<in> set (players g)"
      unfolding pl' using sub by auto
    then show "score (snd ip) = nameScore g' (name (snd ip))"
    proof
      assume "ip = (sid, p')"
      with sp p' show ?thesis by (simp add: nameScore_same[OF cl])
    next
      assume "ip \<in> set (players g)"
      with s have "score (snd ip) = nameScore g (name (snd ip))" by (rule bspec)
      then show ?thesis by (simp add: nameScore_same[OF cl])
    qed
  qed
  have l': "\<forall>kc\<in>set (claims g'). playerName (snd kc) \<in>
      set (map (\<lambda>ip. name (snd ip)) (players g'))"
    unfolding cl ns by (rule l)
  have "distinct (map fst (players g'))" unfolding pl' using d' k' by simp
  moreover have "distinct (map (\<lambda>ip. name (snd ip)) (players g'))"
    unfolding pl' using dn' nn by simp
  ultimately show ?thesis using l' s' unfolding roster_ok_iff by (simp only: simp_thms)
qed

lemma new_name_absent:
  assumes "\<not> nameTaken ps nm" "find (\<lambda>(_, p). name p = nm \<and> \<not> connected p) ps = None"
  shows "nm \<notin> set (map (\<lambda>ip. name (snd ip)) ps)"
proof
  assume "nm \<in> set (map (\<lambda>ip. name (snd ip)) ps)"
  then obtain ip where ip: "ip \<in> set ps" "name (snd ip) = nm" by auto
  show False
  proof (cases "connected (snd ip)")
    case True
    with ip have "nameTaken ps nm"
      unfolding nameTaken_def list_ex_iff by (auto simp: case_prod_unfold)
    with assms(1) show False by simp
  next
    case False
    from assms(2) have "\<forall>a b. name b = nm \<longrightarrow> (a, b) \<in> set ps \<longrightarrow> connected b"
      by (simp add: find_None_iff)
    moreover from ip(1) have "(fst ip, snd ip) \<in> set ps" by simp
    ultimately have "connected (snd ip)" using ip(2) by blast
    with False show False by simp
  qed
qed

lemma roster_ok_joinGame:
  assumes ok: "roster_ok g" and j: "joinGame g sid nm = Inr (g', h)"
  shows "roster_ok g'"
proof (cases "Map_has (players g) sid")
  case True
  with j have "g' = g" by (auto simp: joinGame_def Let_def split: if_splits)
  with ok show ?thesis by simp
next
  case False
  then have new: "map_of (players g) sid = None" by (simp add: Map_has_def)
  from j False have nt: "\<not> nameTaken (players g) nm"
    by (auto simp: joinGame_def Let_def split: if_splits)
  from j have cl: "claims g' = claims g" by (simp add: joinGame_frame)
  show ?thesis
  proof (cases "find (\<lambda>(_, p). name p = nm \<and> \<not> connected p) (players g)")
    case None
    let ?p0 = "\<lparr>player_id = sid, name = nm, score = 0, connected = True\<rparr>"
    from j False nt None have pl: "players g' = Map_set (players g) sid ?p0"
      by (auto simp: joinGame_def Let_def split: if_splits)
    from new_name_absent[OF nt None]
    have "name ?p0 \<notin> set (map (\<lambda>ip. name (snd ip)) (players g))" by simp
    from roster_ok_join_new[OF ok new this _ pl cl] show ?thesis by simp
  next
    case (Some a)
    obtain old p where a: "a = (old, p)" by (cases a)
    from j False nt Some a
    have pl: "players g' = Map_set (Map_delete (players g) old) sid (p\<lparr>connected := True\<rparr>)"
      by (auto simp: joinGame_def Let_def split: if_splits)
    from Some a have "(old, p) \<in> set (players g)"
      unfolding find_Some_iff by (metis nth_mem)
    from roster_ok_rebind[OF ok new this _ _ pl cl] show ?thesis by simp
  qed
qed


lemma claimKey_inj:
  assumes "CHR ''-'' \<notin> set u" "CHR ''-'' \<notin> set w" "claimKey u p = claimKey w q"
  shows "u = w \<and> p = q"
  using assms unfolding claimKey_def
proof (induction u arbitrary: w)
  case Nil
  then show ?case by (cases w) auto
next
  case (Cons a u)
  then show ?case by (cases w) auto
qed

lemma valid_word_letters:
  assumes "validateWord wl u ls m = None" "trim (toUpperCase u) = u"
  shows "set u \<subseteq> set ls"
proof -
  from validateWord_None_normal[OF assms] have "canFormWord u ls" by simp
  moreover from assms(2) have "toUpperCase u = u" by (metis toUpperCase_trim_toUpperCase)
  ultimately have "mset u \<subseteq># mset ls" by (simp add: canFormWord_mset)
  then show ?thesis by (metis set_mset_mono set_mset_mset)
qed

lemma freeforall_key_fresh:
  assumes ok: "ledger_ok wl g" and m: "mode g \<noteq> Exclusive"
    and h: "CHR ''-'' \<notin> set (letters g)"
    and v: "validateWord wl u (letters g) (minWordLength g) = None"
    and n: "trim (toUpperCase u) = u"
    and mine: "u \<notin> set (case Map_get (playerClaims g) pid of None \<Rightarrow> [] | Some s \<Rightarrow> s)"
  shows "map_of (claims g) (claimKey u pid) = None"
proof (rule ccontr)
  assume "map_of (claims g) (claimKey u pid) \<noteq> None"
  then obtain c where c: "(claimKey u pid, c) \<in> set (claims g)"
    by (auto dest: map_of_SomeD)
  with ok have "entry_ok wl g (claimKey u pid, c)" by (simp add: ledger_ok_iff)
  with m obtain w s where w: "claimKey u pid = claimKey w (playerId c)"
      "trim (toUpperCase w) = w" "validateWord wl w (letters g) (minWordLength g) = None"
      "Map_get (playerClaims g) (playerId c) = Some s" "w \<in> set s"
    unfolding entry_ok_iff by auto
  from valid_word_letters[OF v n] h have hu: "CHR ''-'' \<notin> set u" by auto
  from valid_word_letters[OF w(3) w(2)] h have hw: "CHR ''-'' \<notin> set w" by auto
  from claimKey_inj[OF hu hw w(1)] have "u = w" "pid = playerId c" by simp_all
  with w(4,5) mine show False by simp
qed

lemma roster_ok_submitWord:
  assumes r: "roster_ok g" and ok: "ledger_ok wl g" and h: "CHR ''-'' \<notin> set (letters g)"
  shows "roster_ok (snd (submitWord wl g pid word now))"
proof (cases "fst (submitWord wl g pid word now)")
  case (Inl e)
  then have "submitWord wl g pid word now = (Inl e, snd (submitWord wl g pid word now))"
    by (simp add: prod_eq_iff)
  then have "snd (submitWord wl g pid word now) = g"
    by (rule submitWord_rejected)
  with r show ?thesis by simp
next
  case (Inr acc)
  let ?u = "trim (toUpperCase word)"
  from submitWord_accepted_pre[OF Inr] obtain p where
    p: "Map_get (players g) pid = Some p" and st: "status g = Playing"
    and v: "validateWord wl ?u (letters g) (minWordLength g) = None"
    by blast
  show ?thesis
  proof (cases "mode g = Exclusive")
    case True
    let ?c = "\<lparr>playerId = pid, playerName = name p, timestamp = elapsedSeconds g now,
                  claim_score = calculateExclusiveScore ?u, claim_word = None\<rparr>"
    note eq = submitWord_Exclusive[OF True p st v, of now]
    from Inr eq have fresh: "\<not> Map_has (claims g) ?u" by (auto split: if_splits)
    then have "map_of (claims g) ?u = None" by (simp add: Map_has_def)
    then have app: "Map_set (claims g) ?u ?c = claims g @ [(?u, ?c)]"
      by (simp add: Map_set_def update_absent)
    show ?thesis
      unfolding eq if_not_P[OF fresh] snd_conv
      by (rule roster_ok_accept[OF r p, where c = ?c and k = ?u]) (simp_all add: app)
  next
    case False
    let ?mine = "case Map_get (playerClaims g) pid of None \<Rightarrow> [] | Some s \<Rightarrow> s"
    let ?sc = "calculateFreeForAllScore ?u (real_of_int (elapsedSeconds g now))"
    let ?c = "\<lparr>playerId = pid, playerName = name p, timestamp = elapsedSeconds g now,
                  claim_score = ?sc, claim_word = Some ?u\<rparr>"
    note eq = submitWord_FreeForAll[OF False p st v refl refl, of now]
    from Inr eq have fresh: "?u \<notin> set ?mine" by (auto split: if_splits)
    from freeforall_key_fresh[OF ok False h v normalize_idem fresh]
    have app: "Map_set (claims g) (claimKey ?u pid) ?c = claims g @ [(claimKey ?u pid, ?c)]"
      by (simp add: Map_set_def update_absent)
    show ?thesis
      unfolding eq if_not_P[OF fresh] snd_conv
      by (rule roster_ok_accept[OF r p, where c = ?c and k = "claimKey ?u pid"])
        (simp_all add: app)
  qed
qed

lemma roster_ok_step:
  assumes "roster_ok g" "ledger_ok wl g" "CHR ''-'' \<notin> set (letters g)"
  shows "roster_ok (step wl g ev)"
proof (cases ev)
  case (JoinGame sid nm)
  show ?thesis
  proof (cases "joinGame g sid nm")
    case (Inl e)
    with JoinGame assms show ?thesis by simp
  next
    case (Inr r)
    then have "joinGame g sid nm = Inr (fst r, snd r)" by simp
    from roster_ok_joinGame[OF assms(1) this] JoinGame Inr show ?thesis
      by (simp add: case_prod_beta)
  qed
next
  case (StartGame sid now)
  show ?thesis
  proof (cases "startGame g sid now")
    case (Inl e)
    with StartGame assms show ?thesis by simp
  next
    case (Inr g')
    from startGame_frame[OF Inr] assms(1) have "roster_ok g'"
      by (simp add: roster_ok_iff nameScore_def)
    with StartGame Inr show ?thesis by simp
  qed
next
  case (SubmitWord sid word now)
  with roster_ok_submitWord[OF assms] show ?thesis by simp
next
  case (Disconnect sid)
  with roster_ok_disconnect[OF assms(1)] show ?thesis by simp
next
  case (TimerTick now)
  from assms(1) have "roster_ok (timerTick g now)"
    by (simp add: roster_ok_iff nameScore_def timerTick_frame)
  with TimerTick assms show ?thesis by simp
qed

lemma roster_ok_run:
  assumes "roster_ok g" "ledger_ok wl g" "CHR ''-'' \<notin> set (letters g)"
  shows "roster_ok (run wl g evs)"
  using assms unfolding run_def
proof (induction evs arbitrary: g)
  case Nil
  then show ?case by simp
next
  case (Cons ev evs)
  have "roster_ok (step wl g ev)" by (rule roster_ok_step[OF Cons.prems])
  moreover have "ledger_ok wl (step wl g ev)" by (rule ledger_ok_step[OF Cons.prems(2)])
  moreover from Cons.prems(3) have "CHR ''-'' \<notin> set (letters (step wl g ev))"
    by (simp add: step_frame)
  ultimately show ?case using Cons.IH by simp
qed

lemma ledger_sum_by_name:
  assumes "CHR ''-'' \<notin> set ls" and "g = run wl (createGame gid ls opts) evs"
    and "(i, p) \<in> set (players g)"
  shows "nameScore g (name p) = score p"
proof -
  have "roster_ok (createGame gid ls opts)"
    by (simp add: roster_ok_iff createGame_def)
  moreover have "ledger_ok wl (createGame gid ls opts)" by (rule ledger_ok_createGame)
  moreover from assms(1) have "CHR ''-'' \<notin> set (letters (createGame gid ls opts))"
    by (simp add: createGame_def)
  ultimately have "roster_ok g" unfolding assms(2) by (rule roster_ok_run)
  with assms(3) show ?thesis unfolding roster_ok_iff by force
qed

lemma submitWord_appends:
  assumes ok: "ledger_ok wl g" and h: "CHR ''-'' \<notin> set (letters g)"
    and s: "submitWord wl g pid word now = (Inr acc, g')"
  shows "\<exists>p k c. Map_get (players g) pid = Some p
      \<and> claims g' = claims g @ [(k, c)]
      \<and> claim_score c = ok_score acc \<and> playerId c = pid \<and> playerName c = name p
      \<and> totalScore acc = score p + ok_score acc
      \<and> players g' = Map_set (players g) pid (p\<lparr>score := score p + ok_score acc\<rparr>)"
proof -
  let ?u = "trim (toUpperCase word)"
  from s have "fst (submitWord wl g pid word now) = Inr acc" by simp
  from submitWord_accepted_pre[OF this] obtain p where
    p: "Map_get (players g) pid = Some p" and st: "status g = Playing"
    and v: "validateWord wl ?u (letters g) (minWordLength g) = None"
    by blast
  show ?thesis
  proof (cases "mode g = Exclusive")
    case True
    let ?c = "\<lparr>playerId = pid, playerName = name p, timestamp = elapsedSeconds g now,
                  claim_score = calculateExclusiveScore ?u, claim_word = None\<rparr>"
    note eq = submitWord_Exclusive[OF True p st v, of now]
    from s eq have fresh: "\<not> Map_has (claims g) ?u" by (auto split: if_splits)
    then have "map_of (claims g) ?u = None" by (simp add: Map_has_def)
    then have app: "Map_set (claims g) ?u ?c = claims g @ [(?u, ?c)]"
      by (simp add: Map_set_def update_absent)
    from s[unfolded eq if_not_P[OF fresh]]
    have "acc = \<lparr>ok_word = ?u, ok_score = calculateExclusiveScore ?u,
          totalScore = score p + calculateExclusiveScore ?u\<rparr>"
      and "claims g' = Map_set (claims g) ?u ?c"
      and "players g' = Map_set (players g) pid (p\<lparr>score := score p + calculateExclusiveScore ?u\<rparr>)"
      by auto
    with p app show ?thesis by (intro exI[of _ p] exI[of _ ?u] exI[of _ ?c]) simp
  next
    case False
    let ?mine = "case Map_get (playerClaims g) pid of None \<Rightarrow> [] | Some s \<Rightarrow> s"
    let ?sc = "calculateFreeForAllScore ?u (real_of_int (elapsedSeconds g now))"
    let ?c = "\<lparr>playerId = pid, playerName = name p, timestamp = elapsedSeconds g now,
                  claim_score = ?sc, claim_word = Some ?u\<rparr>"
    note eq = submitWord_FreeForAll[OF False p st v refl refl, of now]
    from s eq have fresh: "?u \<notin> set ?mine" by (auto split: if_splits)
    from freeforall_key_fresh[OF ok False h v normalize_idem fresh]
    have app: "Map_set (claims g) (claimKey ?u pid) ?c = claims g @ [(claimKey ?u pid, ?c)]"
      by (simp add: Map_set_def update_absent)
    from s[unfolded eq if_not_P[OF fresh]]
    have "acc = \<lparr>ok_word = ?u, ok_score = ?sc, totalScore = score p + ?sc\<rparr>"
      and "claims g' = Map_set (claims g) (claimKey ?u pid) ?c"
      and "players g' = Map_set (players g) pid (p\<lparr>score := score p + ?sc\<rparr>)"
      by auto
    with p app show ?thesis
      by (intro exI[of _ p] exI[of _ "claimKey ?u pid"] exI[of _ ?c]) simp
  qed
qed

text \<open>
  C5. After any sequence of events, for every player of the player table, the scores of
  the player's ledger entries add up to the player's total. An entry is the player's
  when it bears the player's display name: the name is what identifies a player across
  connections, while the socket id of an entry is that of the connection that made the
  claim and is not renewed by a reconnection (\<open>ledger_by_socket_id_after_reconnect\<close>
  below). Every accepted submission appends exactly one entry, with the score it reports,
  under the submitter's id and name, and adds that score to the submitter's total; a
  rejected submission changes nothing. The letters of the game contain no hyphen, as
  the letters \<open>generateLetters\<close> draws from.
\<close>

theorem ledger_scores_sum:
  assumes "CHR ''-'' \<notin> set ls" and "g = run wl (createGame gid ls opts) evs"
  shows "(\<forall>(i, p)\<in>set (players g). nameScore g (name p) = score p)
    \<and> (\<forall>pid word now e g'. submitWord wl g pid word now = (Inl e, g') \<longrightarrow> g' = g)
    \<and> (\<forall>pid word now acc g'. submitWord wl g pid word now = (Inr acc, g') \<longrightarrow>
         (\<exists>p k c. Map_get (players g) pid = Some p
            \<and> claims g' = claims g @ [(k, c)]
            \<and> claim_score c = ok_score acc \<and> playerId c = pid \<and> playerName c = name p
            \<and> totalScore acc = score p + ok_score acc
            \<and> players g' = Map_set (players g) pid (p\<lparr>score := score p + ok_score acc\<rparr>)))"
proof -
  have ok: "ledger_ok wl g" unfolding assms(2) by (rule reachable_ledger_ok)
  from assms have h: "CHR ''-'' \<notin> set (letters g)"
    by (simp add: run_frame createGame_def)
  have 1: "\<forall>(i, p)\<in>set (players g). nameScore g (name p) = score p"
    using ledger_sum_by_name[OF assms] by blast
  have 2: "g' = g" if "submitWord wl g pid word now = (Inl e, g')" for pid word now e g'
    using that by (rule submitWord_rejected)
  note 3 = submitWord_appends[OF ok h]
  from 1 2 3 show ?thesis by blast
qed

theorem ledger_scores_sum_witness:
  "(''s2'', \<lparr>player_id = ''s1'', name = ''Alva'', score = 150, connected = True\<rparr>)
      \<in> set (players exampleReconnect)
   \<and> nameScore exampleReconnect ''Alva'' = 150
   \<and> submitWord fallbackWordList exampleReconnect ''s2'' ''xyz'' 20000 =
       (Inl (Invalid InvalidLetters), exampleReconnect)"
proof -
  let ?alva = "\<lparr>player_id = ''s1'', name = ''Alva'', score = 150, connected = True\<rparr>"
  have h: "CHR ''-'' \<notin> set ''ATTOCH''" by simp
  have r: "exampleReconnect =
      run fallbackWordList
        (createGame ''ABC234'' ''ATTOCH'' (defaultOptions\<lparr>opt_mode := Some FreeForAll\<rparr>))
        [JoinGame ''s1'' ''Alva'', StartGame ''s1'' 0, SubmitWord ''s1'' ''att'' 10000,
         Disconnect ''s1'', JoinGame ''s2'' ''Alva'']"
    by (simp add: exampleReconnect_def exampleGame_def)
  have p: "(''s2'', ?alva) \<in> set (players exampleReconnect)" by code_simp
  have e: "fst (submitWord fallbackWordList exampleReconnect ''s2'' ''xyz'' 20000) =
      Inl (Invalid InvalidLetters)" by code_simp
  then have e': "submitWord fallbackWordList exampleReconnect ''s2'' ''xyz'' 20000 =
      (Inl (Invalid InvalidLetters),
       snd (submitWord fallbackWordList exampleReconnect ''s2'' ''xyz'' 20000))"
    by (simp add: prod_eq_iff)
  note inst = ledger_scores_sum[OF h r]
  from inst p have "nameScore exampleReconnect (name ?alva) = score ?alva" by blast
  then have 1: "nameScore exampleReconnect ''Alva'' = 150" by simp
  from inst[THEN conjunct2, THEN conjunct1, rule_format, OF e']
  have "snd (submitWord fallbackWordList exampleReconnect ''s2'' ''xyz'' 20000) = exampleReconnect" .
  with e' have 2: "submitWord fallbackWordList exampleReconnect ''s2'' ''xyz'' 20000 =
       (Inl (Invalid InvalidLetters), exampleReconnect)" by simp
  from p 1 2 show ?thesis by blast
qed

subsection \<open>Reconnection and the host\<close>

lemma joinGame_reconnect:
  assumes "status g \<noteq> Ended" "length (players g) < 20" "\<not> Map_has (players g) sid"
    and "\<not> nameTaken (players g) nm"
    and "find (\<lambda>(_, p). name p = nm \<and> \<not> connected p) (players g) = Some (old, p)"
  shows "\<exists>g' h. joinGame g sid nm = Inr (g', h)
      \<and> Map_get (players g') sid = Some (p\<lparr>connected := True\<rparr>)
      \<and> \<not> Map_has (players g') old
      \<and> claims g' = claims g \<and> playerClaims g' = playerClaims g"
proof -
  from assms(3,5) have "old \<noteq> sid"
    by (auto simp: find_Some_iff Map_has_def dest!: nth_mem weak_map_of_SomeI)
  with assms show ?thesis
    by (simp add: joinGame_def Let_def MAX_PLAYERS_PER_ROOM_def Map_get_def Map_has_def
        Map_set_def Map_delete_def update_conv' delete_conv')
qed

lemma disconnect_host:
  assumes "Map_get (players g) sid = Some p" "hostId g = Some sid"
  shows "hostId (disconnect g sid) =
    (case find (\<lambda>(_, q). connected q) (Map_set (players g) sid (p\<lparr>connected := False\<rparr>)) of
       None \<Rightarrow> Some sid
     | Some (i, _) \<Rightarrow> Some i)"
  using assms by (simp add: disconnect_def Let_def split: option.splits prod.splits)

text \<open>
  C3 says that a player who disconnects and joins again under the same name gets back
  the earlier score and the earlier claims, so that in free-for-all mode a word claimed
  before is still rejected as already used. \<open>joinGame\<close> moves the player entry, with
  its score, to the new socket id (\<open>joinGame_reconnect\<close>), but the words a player has
  used are kept under the socket id of the claim and are not moved. In the session below
  Alva claims ATT for 150 points, disconnects and joins again: her entry has the 150
  points, the ledger and the used words still name the old socket, and ATT submitted
  again is accepted for another 120 points.
\<close>

theorem reconnect_loses_claim_history:
  "Map_get (players exampleReconnect) ''s2'' =
     Some \<lparr>player_id = ''s1'', name = ''Alva'', score = 150, connected = True\<rparr>
   \<and> claims exampleReconnect =
     [(''ATT-s1'', \<lparr>playerId = ''s1'', playerName = ''Alva'', timestamp = 10,
                     claim_score = 150, claim_word = Some ''ATT''\<rparr>)]
   \<and> playerClaims exampleReconnect = [(''s1'', [''ATT''])]
   \<and> mode exampleReconnect = FreeForAll
   \<and> fst (submitWord fallbackWordList exampleReconnect ''s2'' ''att'' 20000) =
     Inr \<lparr>ok_word = ''ATT'', ok_score = 120, totalScore = 270\<rparr>"
  by code_simp

text \<open>
  Collected by socket id the entries do not follow a reconnection. In the same session
  the player table holds Alva under the new socket id with 150 points, while the entries
  of that id add up to 0: the 150 points are recorded under the id of the earlier
  connection, which is no longer in the table.
\<close>

lemma ledger_by_socket_id_after_reconnect:
  "players exampleReconnect =
     [(''s2'', \<lparr>player_id = ''s1'', name = ''Alva'', score = 150, connected = True\<rparr>)]
   \<and> claimedScore exampleReconnect ''s2'' = 0
   \<and> claimedScore exampleReconnect ''s1'' = 150"
  by code_simp

text \<open>
  C4 says that when the host disconnects the first connected player in the order of the
  player table becomes host, and that the host is unset when no player is connected,
  until someone joins. The first part is what \<open>disconnect\<close> does (\<open>disconnect_host\<close>):
  with P1, P2, P3 joined in this order, P2 follows P1, and P3 does when P2 has left
  before. When nobody is connected the host id is not unset: it stays on the socket of
  the player who left, and since \<open>joinGame\<close> gives the host role only when the id is
  unset, neither a new player nor the returning host becomes host. The second player of
  the session below cannot start the game.
\<close>

theorem host_stays_on_disconnected_player:
  "hostId (run fallbackWordList (exampleGame FreeForAll)
      [JoinGame ''s1'' ''P1'', JoinGame ''s2'' ''P2'', JoinGame ''s3'' ''P3'',
       Disconnect ''s1'']) = Some ''s2''
   \<and> hostId (run fallbackWordList (exampleGame FreeForAll)
      [JoinGame ''s1'' ''P1'', JoinGame ''s2'' ''P2'', JoinGame ''s3'' ''P3'',
       Disconnect ''s2'', Disconnect ''s1'']) = Some ''s3''
   \<and> hostId (run fallbackWordList (exampleGame FreeForAll)
      [JoinGame ''s1'' ''P1'', Disconnect ''s1'']) = Some ''s1''
   \<and> hostId exampleHostLeft = Some ''s1''
   \<and> players exampleHostLeft =
     [(''s1'', \<lparr>player_id = ''s1'', name = ''P1'', score = 0, connected = False\<rparr>),
      (''s2'', \<lparr>player_id = ''s2'', name = ''P2'', score = 0, connected = True\<rparr>)]
   \<and> startGame exampleHostLeft ''s2'' 5000 = Inl NotHost
   \<and> hostId (run fallbackWordList (exampleGame FreeForAll)
      [JoinGame ''s1'' ''P1'', Disconnect ''s1'', JoinGame ''s9'' ''P1'']) = Some ''s1''
   \<and> players (run fallbackWordList (exampleGame FreeForAll)
      [JoinGame ''s1'' ''P1'', Disconnect ''s1'', JoinGame ''s9'' ''P1'']) =
     [(''s9'', \<lparr>player_id = ''s1'', name = ''P1'', score = 0, connected = True\<rparr>)]"
  by code_simp

end
